theory Spec2Isabelle
  imports Complex_Main
begin

section \<open>Arrays and broadcasting\<close>

text \<open>
  The channel state lives in one-dimensional arrays with one entry per simulated
  compartment.  An array is modelled by the list of its entries in order (the shapes
  \<open>(M,)\<close> and \<open>(1, M)\<close> used by the source are both flattened to a list of length
  \<open>M\<close>), with entries in the real numbers: arithmetic is exact, rounding of the
  floating-point backend is not part of this model.  A Python scalar is the array of
  length one; it takes part in an elementwise operation exactly as a one-entry array
  does.
\<close>

type_synonym arr = "real list"

datatype error = ShapeError | UnsizedLen

text \<open>
  An elementwise binary operation of the array library.  Equal shapes are combined
  entry by entry, a one-entry operand is stretched along the other one.  For any other
  pair of shapes the library raises; callers test \<open>compat\<close> first, so the last branch is
  never taken after a successful test.
\<close>

definition compat :: "nat \<Rightarrow> nat \<Rightarrow> bool" where
  "compat m n = (m = n \<or> m = 1 \<or> n = 1)"

definition bc :: "('a \<Rightarrow> 'b \<Rightarrow> 'c) \<Rightarrow> 'a list \<Rightarrow> 'b list \<Rightarrow> 'c list" where
  "bc f xs ys =
     (if length xs = length ys then map2 f xs ys
      else if length xs = 1 then map (f (hd xs)) ys
      else if length ys = 1 then map (\<lambda>x. f x (hd ys)) xs
      else [])"

definition bc_chk :: "('a \<Rightarrow> 'b \<Rightarrow> 'c) \<Rightarrow> 'a list \<Rightarrow> 'b list \<Rightarrow> error + 'c list" where
  "bc_chk f xs ys =
     (if compat (length xs) (length ys) then Inr (bc f xs ys) else Inl ShapeError)"

section \<open>The conservation normalizer\<close>

text \<open>
  \<open>normalize_states\<close> receives a Python list whose entries are either differential
  state cells (objects with a \<open>value\<close> attribute, which the loop assigns to) or plain
  arrays (for which the loop only rebinds its own variable).  The model returns the
  list of entries as they are after the call.  The cells passed in one call are
  distinct objects, so the list of their values describes them.
\<close>

datatype entry = Cell arr | Plain arr

fun arr_of :: "entry \<Rightarrow> arr" where
  "arr_of (Cell v) = v"
| "arr_of (Plain a) = a"

fun is_cell :: "entry \<Rightarrow> bool" where
  "is_cell (Cell v) = True"
| "is_cell (Plain a) = False"

definition maximum :: "arr \<Rightarrow> arr \<Rightarrow> arr" where
  "maximum xs ys = bc max xs ys"

definition eps :: real where
  "eps = 1 / 10 ^ 12"

text \<open>
  First loop: clamp every entry at zero and accumulate the running sum (the variable
  \<open>total\<close> of the source).
\<close>

fun clamp_sum :: "entry list \<Rightarrow> arr \<Rightarrow> error + (entry list \<times> arr)" where
  "clamp_sum [] tot = Inr ([], tot)"
| "clamp_sum (Cell v # es) tot =
     (let v' = maximum v [0] in
      case bc_chk (+) tot v' of
        Inl e \<Rightarrow> Inl e
      | Inr t \<Rightarrow>
         (case clamp_sum es t of
            Inl e \<Rightarrow> Inl e
          | Inr (es', t') \<Rightarrow> Inr (Cell v' # es', t')))"
| "clamp_sum (Plain a # es) tot =
     (let a' = maximum a [0] in
      case bc_chk (+) tot a' of
        Inl e \<Rightarrow> Inl e
      | Inr t \<Rightarrow>
         (case clamp_sum es t of
            Inl e \<Rightarrow> Inl e
          | Inr (es', t') \<Rightarrow> Inr (Plain a # es', t')))"

text \<open>Second loop: divide every entry by that sum plus \<open>10 ** (-12)\<close>.\<close>

fun divide_all :: "entry list \<Rightarrow> arr \<Rightarrow> error + entry list" where
  "divide_all [] tot = Inr []"
| "divide_all (Cell v # es) tot =
     (case bc_chk (/) v (bc (+) tot [eps]) of
        Inl e \<Rightarrow> Inl e
      | Inr v' \<Rightarrow>
         (case divide_all es tot of
            Inl e \<Rightarrow> Inl e
          | Inr es' \<Rightarrow> Inr (Cell v' # es')))"
| "divide_all (Plain a # es) tot =
     (case bc_chk (/) a (bc (+) tot [eps]) of
        Inl e \<Rightarrow> Inl e
      | Inr a' \<Rightarrow>
         (case divide_all es tot of
            Inl e \<Rightarrow> Inl e
          | Inr es' \<Rightarrow> Inr (Plain a # es')))"

definition normalize_states :: "entry list \<Rightarrow> error + entry list" where
  "normalize_states states =
     (case clamp_sum states [0] of
        Inl e \<Rightarrow> Inl e
      | Inr (es, tot) \<Rightarrow> divide_all es tot)"

text \<open>
  The sum that the first loop accumulates at compartment \<open>m\<close>, written as a sum over
  the entries, and the entry-wise effect of the whole call.
\<close>

definition clamped_total :: "entry list \<Rightarrow> nat \<Rightarrow> real" where
  "clamped_total es m = (\<Sum>e\<leftarrow>es. max (arr_of e ! m) 0)"

definition same_shape :: "nat \<Rightarrow> entry list \<Rightarrow> bool" where
  "same_shape M es = (\<forall>e \<in> set es. length (arr_of e) = M)"

fun clamp_entry :: "entry \<Rightarrow> entry" where
  "clamp_entry (Cell v) = Cell (map (\<lambda>x. max x 0) v)"
| "clamp_entry (Plain a) = Plain a"

fun divide_entry :: "(nat \<Rightarrow> real) \<Rightarrow> entry \<Rightarrow> entry" where
  "divide_entry T (Cell v) = Cell (map (\<lambda>m. v ! m / (T m + eps)) [0..<length v])"
| "divide_entry T (Plain a) = Plain a"

text \<open>Predicates used to state the effect of the normalizer.\<close>

definition nonneg :: "arr \<Rightarrow> bool" where
  "nonneg xs = (\<forall>x \<in> set xs. 0 \<le> x)"

definition cells_nonneg :: "entry list \<Rightarrow> bool" where
  "cells_nonneg es = (\<forall>e \<in> set es. is_cell e \<longrightarrow> nonneg (arr_of e))"

definition frame :: "entry \<Rightarrow> entry \<Rightarrow> bool" where
  "frame e e' = (case e of Plain a \<Rightarrow> e' = Plain a | Cell v \<Rightarrow> is_cell e')"

section \<open>The channel state and the pre-integration hook\<close>

text \<open>
  The twelve differential state cells of \<open>INa_Rsg\<close> (the field \<open>O_st\<close> is the cell
  \<open>O\<close> of the source) and the attribute \<open>I6\<close>, a plain array that \<open>pre_integral\<close> and
  \<open>reset_state\<close> assign.
\<close>

record state =
  C1 :: arr
  C2 :: arr
  C3 :: arr
  C4 :: arr
  C5 :: arr
  I1 :: arr
  I2 :: arr
  I3 :: arr
  I4 :: arr
  I5 :: arr
  O_st :: arr
  B :: arr
  I6 :: arr

text \<open>A chain of additions \<open>a + x1 + x2 + ...\<close>, evaluated from the left.\<close>

fun add_all :: "arr \<Rightarrow> arr list \<Rightarrow> error + arr" where
  "add_all acc [] = Inr acc"
| "add_all acc (x # xs) =
     (case bc_chk (+) acc x of Inl e \<Rightarrow> Inl e | Inr a \<Rightarrow> add_all a xs)"

definition remainder :: "state \<Rightarrow> error + arr" where
  "remainder st =
     (case add_all (I1 st) [I2 st, I3 st, I4 st, I5 st, O_st st, B st,
                            C1 st, C2 st, C3 st, C4 st, C5 st] of
        Inl e \<Rightarrow> Inl e
      | Inr s \<Rightarrow> Inr (bc (-) [1] s))"

definition cells :: "state \<Rightarrow> arr list" where
  "cells st = [C1 st, C2 st, C3 st, C4 st, C5 st,
               I1 st, I2 st, I3 st, I4 st, I5 st, O_st st, B st]"

definition pre_integral :: "state \<Rightarrow> error + state" where
  "pre_integral st =
     (case remainder st of
        Inl e \<Rightarrow> Inl e
      | Inr i6 \<Rightarrow>
         (case normalize_states (map Cell (cells st) @ [Plain i6]) of
            Inl e \<Rightarrow> Inl e
          | Inr es \<Rightarrow>
             Inr (st\<lparr>C1 := arr_of (es ! 0), C2 := arr_of (es ! 1), C3 := arr_of (es ! 2),
                     C4 := arr_of (es ! 3), C5 := arr_of (es ! 4), I1 := arr_of (es ! 5),
                     I2 := arr_of (es ! 6), I3 := arr_of (es ! 7), I4 := arr_of (es ! 8),
                     I5 := arr_of (es ! 9), O_st := arr_of (es ! 10),
                     B := arr_of (es ! 11), I6 := i6\<rparr>)))"

text \<open>
  The sum of the twelve tracked occupancies and the stored remainder at compartment
  \<open>m\<close>.
\<close>

definition occupancy_sum :: "state \<Rightarrow> nat \<Rightarrow> real" where
  "occupancy_sum st m = (\<Sum>c\<leftarrow>cells st. c ! m) + I6 st ! m"

section \<open>The kinetic scheme of \<open>INa_Rsg\<close>\<close>

subsection \<open>Parameters and rate functions\<close>

text \<open>
  The attributes that \<open>__init__\<close> stores on the channel.  Temperatures, voltages and
  times are the magnitudes in degrees Celsius, millivolts and milliseconds; \<open>phi\<close> and
  \<open>g_max\<close> are scalars, as they are when the channel is built from scalar arguments.
\<close>

record params =
  phi :: real
  g_max :: real
  Con :: real
  Coff :: real
  Oon :: real
  Ooff :: real
  alpha :: real
  beta :: real
  gamma :: real
  delta :: real
  epsilon :: real
  zeta :: real
  x1 :: real
  x2 :: real
  x3 :: real
  x4 :: real
  x5 :: real
  x6 :: real
  vshifta :: real
  vshifti :: real
  vshiftk :: real
  alfac :: real
  btfac :: real

text \<open>The constructor, for a temperature \<open>T\<close> in Kelvin and a conductance \<open>g\<close>.\<close>

definition INa_Rsg_init :: "real \<Rightarrow> real \<Rightarrow> params" where
  "INa_Rsg_init T g =
     \<lparr>phi = 3 powr (((T - 273.15) - 22) / 10), g_max = g,
      Con = 0.005, Coff = 0.5, Oon = 0.75, Ooff = 0.005,
      alpha = 150, beta = 3, gamma = 150, delta = 40, epsilon = 1.75, zeta = 0.03,
      x1 = 20, x2 = - 20, x3 = 10 ^ 12, x4 = - (10 ^ 12), x5 = 10 ^ 12, x6 = - 25,
      vshifta = 0, vshifti = 0, vshiftk = 0,
      alfac = (0.75 / 0.005) powr (1 / 4), btfac = (0.005 / 0.5) powr (1 / 4)\<rparr>"

text \<open>
  The rate table.  A rate that depends on the voltage is an array of the shape of \<open>V\<close>;
  a rate that does not is a scalar.
\<close>

definition f01 :: "params \<Rightarrow> arr \<Rightarrow> arr" where
  "f01 p V = map (\<lambda>v. 4 * alpha p * exp (v / x1 p) * phi p) V"

definition f02 :: "params \<Rightarrow> arr \<Rightarrow> arr" where
  "f02 p V = map (\<lambda>v. 3 * alpha p * exp (v / x1 p) * phi p) V"

definition f03 :: "params \<Rightarrow> arr \<Rightarrow> arr" where
  "f03 p V = map (\<lambda>v. 2 * alpha p * exp (v / x1 p) * phi p) V"

definition f04 :: "params \<Rightarrow> arr \<Rightarrow> arr" where
  "f04 p V = map (\<lambda>v. 1 * alpha p * exp (v / x1 p) * phi p) V"

definition f0O :: "params \<Rightarrow> arr \<Rightarrow> arr" where
  "f0O p V = map (\<lambda>v. gamma p * exp (v / x3 p) * phi p) V"

definition fip :: "params \<Rightarrow> arr \<Rightarrow> arr" where
  "fip p V = map (\<lambda>v. epsilon p * exp (v / x5 p) * phi p) V"

definition f11 :: "params \<Rightarrow> arr \<Rightarrow> arr" where
  "f11 p V = map (\<lambda>v. 4 * alpha p * alfac p * exp ((v + vshifti p) / x1 p) * phi p) V"

definition f12 :: "params \<Rightarrow> arr \<Rightarrow> arr" where
  "f12 p V = map (\<lambda>v. 3 * alpha p * alfac p * exp ((v + vshifti p) / x1 p) * phi p) V"

definition f13 :: "params \<Rightarrow> arr \<Rightarrow> arr" where
  "f13 p V = map (\<lambda>v. 2 * alpha p * alfac p * exp ((v + vshifti p) / x1 p) * phi p) V"

definition f14 :: "params \<Rightarrow> arr \<Rightarrow> arr" where
  "f14 p V = map (\<lambda>v. 1 * alpha p * alfac p * exp ((v + vshifti p) / x1 p) * phi p) V"

definition f1n :: "params \<Rightarrow> arr \<Rightarrow> arr" where
  "f1n p V = map (\<lambda>v. gamma p * exp (v / x3 p) * phi p) V"

definition fi1 :: "params \<Rightarrow> arr \<Rightarrow> arr" where
  "fi1 p V = [Con p * phi p]"

definition fi2 :: "params \<Rightarrow> arr \<Rightarrow> arr" where
  "fi2 p V = [Con p * alfac p * phi p]"

definition fi3 :: "params \<Rightarrow> arr \<Rightarrow> arr" where
  "fi3 p V = [Con p * alfac p ^ 2 * phi p]"

definition fi4 :: "params \<Rightarrow> arr \<Rightarrow> arr" where
  "fi4 p V = [Con p * alfac p ^ 3 * phi p]"

definition fi5 :: "params \<Rightarrow> arr \<Rightarrow> arr" where
  "fi5 p V = [Con p * alfac p ^ 4 * phi p]"

definition fin :: "params \<Rightarrow> arr \<Rightarrow> arr" where
  "fin p V = [Oon p * phi p]"

definition b01 :: "params \<Rightarrow> arr \<Rightarrow> arr" where
  "b01 p V = map (\<lambda>v. 1 * beta p * exp ((v + vshifta p) / (x2 p + vshiftk p)) * phi p) V"

definition b02 :: "params \<Rightarrow> arr \<Rightarrow> arr" where
  "b02 p V = map (\<lambda>v. 2 * beta p * exp ((v + vshifta p) / (x2 p + vshiftk p)) * phi p) V"

definition b03 :: "params \<Rightarrow> arr \<Rightarrow> arr" where
  "b03 p V = map (\<lambda>v. 3 * beta p * exp ((v + vshifta p) / (x2 p + vshiftk p)) * phi p) V"

definition b04 :: "params \<Rightarrow> arr \<Rightarrow> arr" where
  "b04 p V = map (\<lambda>v. 4 * beta p * exp ((v + vshifta p) / (x2 p + vshiftk p)) * phi p) V"

definition b0O :: "params \<Rightarrow> arr \<Rightarrow> arr" where
  "b0O p V = map (\<lambda>v. delta p * exp (v / x4 p) * phi p) V"

definition bip :: "params \<Rightarrow> arr \<Rightarrow> arr" where
  "bip p V = map (\<lambda>v. zeta p * exp (v / x6 p) * phi p) V"

definition b11 :: "params \<Rightarrow> arr \<Rightarrow> arr" where
  "b11 p V = map (\<lambda>v. 1 * beta p * btfac p * exp ((v + vshifti p) / x2 p) * phi p) V"

definition b12 :: "params \<Rightarrow> arr \<Rightarrow> arr" where
  "b12 p V = map (\<lambda>v. 2 * beta p * btfac p * exp ((v + vshifti p) / x2 p) * phi p) V"

definition b13 :: "params \<Rightarrow> arr \<Rightarrow> arr" where
  "b13 p V = map (\<lambda>v. 3 * beta p * btfac p * exp ((v + vshifti p) / x2 p) * phi p) V"

definition b14 :: "params \<Rightarrow> arr \<Rightarrow> arr" where
  "b14 p V = map (\<lambda>v. 4 * beta p * btfac p * exp ((v + vshifti p) / x2 p) * phi p) V"

definition b1n :: "params \<Rightarrow> arr \<Rightarrow> arr" where
  "b1n p V = map (\<lambda>v. delta p * exp (v / x4 p) * phi p) V"

definition bi1 :: "params \<Rightarrow> arr \<Rightarrow> arr" where
  "bi1 p V = [Coff p * phi p]"

definition bi2 :: "params \<Rightarrow> arr \<Rightarrow> arr" where
  "bi2 p V = [Coff p * btfac p * phi p]"

definition bi3 :: "params \<Rightarrow> arr \<Rightarrow> arr" where
  "bi3 p V = [Coff p * btfac p ^ 2 * phi p]"

definition bi4 :: "params \<Rightarrow> arr \<Rightarrow> arr" where
  "bi4 p V = [Coff p * btfac p ^ 3 * phi p]"

definition bi5 :: "params \<Rightarrow> arr \<Rightarrow> arr" where
  "bi5 p V = [Coff p * btfac p ^ 4 * phi p]"

definition bin :: "params \<Rightarrow> arr \<Rightarrow> arr" where
  "bin p V = [Ooff p * phi p]"

subsection \<open>Forward-mode differentiation\<close>

text \<open>
  \<open>jax.jacfwd\<close> evaluates its argument on dual numbers, a value together with a
  tangent, once for every input direction.  The right-hand side only adds and
  subtracts state values and multiplies them by rates, so these are the operations a
  dual number needs here; a rate is a constant of the differentiation.
\<close>

datatype dual = Dual (primal: real) (tangent: real)

instantiation dual :: "{one, plus, minus, scaleR}"
begin

definition one_dual :: dual where
  "one_dual = Dual 1 0"

definition plus_dual :: "dual \<Rightarrow> dual \<Rightarrow> dual" where
  "plus_dual a b = Dual (primal a + primal b) (tangent a + tangent b)"

definition minus_dual :: "dual \<Rightarrow> dual \<Rightarrow> dual" where
  "minus_dual a b = Dual (primal a - primal b) (tangent a - tangent b)"

definition scaleR_dual :: "real \<Rightarrow> dual \<Rightarrow> dual" where
  "scaleR_dual k a = Dual (k * primal a) (k * tangent a)"

instance ..

end

text \<open>
  Column \<open>j\<close> of an array given as the list of its rows, and the transpose of an
  array with \<open>n\<close> columns.
\<close>

definition col :: "nat \<Rightarrow> 'a list list \<Rightarrow> 'a list" where
  "col j rows = map (\<lambda>r. r ! j) rows"

definition T_of :: "nat \<Rightarrow> 'a list list \<Rightarrow> 'a list list" where
  "T_of n rows = map (\<lambda>j. col j rows) [0..<n]"

text \<open>
  The input \<open>x\<close> with the tangent of direction \<open>j\<close>; for \<open>j = length x\<close> all tangents
  are zero.
\<close>

definition seed :: "arr \<Rightarrow> nat \<Rightarrow> dual list" where
  "seed x j = map (\<lambda>i. Dual (x ! i) (if i = j then 1 else 0)) [0..<length x]"

definition jacfwd :: "(dual list \<Rightarrow> dual list) \<Rightarrow> arr \<Rightarrow> real list list" where
  "jacfwd f x =
     T_of (length (f (seed x (length x))))
       (map (\<lambda>j. map tangent (f (seed x j))) [0..<length x])"

subsection \<open>The right-hand side\<close>

text \<open>
  Elementwise sum, difference and product with a rate array.  \<open>rhs\<close> is the local
  function of \<open>update_state\<close>; it is applied to real arrays and, under \<open>jacfwd\<close>, to
  arrays of dual numbers.  \<open>V\<close> is the voltage array that \<open>update_state\<close> received, which
  \<open>rhs\<close> reads from the enclosing scope.
\<close>

definition arr_add :: "'a::plus list \<Rightarrow> 'a list \<Rightarrow> 'a list" where
  "arr_add xs ys = bc (+) xs ys"

definition arr_sub :: "'a::minus list \<Rightarrow> 'a list \<Rightarrow> 'a list" where
  "arr_sub xs ys = bc (-) xs ys"

definition arr_mul :: "'a::scaleR list \<Rightarrow> arr \<Rightarrow> 'a list" where
  "arr_mul xs ks = bc (\<lambda>x k. scaleR k x) xs ks"

definition rhs :: "params \<Rightarrow> arr \<Rightarrow> ('a::{one,plus,minus,scaleR}) list list \<Rightarrow> 'a list list" where
  "rhs p V S =
     (let C1 = S ! 0; C2 = S ! 1; C3 = S ! 2; C4 = S ! 3; C5 = S ! 4; I1 = S ! 5;
          I2 = S ! 6; I3 = S ! 7; I4 = S ! 8; I5 = S ! 9; O_st = S ! 10; B = S ! 11;
          I6 = arr_sub [1] (arr_add (arr_add (arr_add (arr_add (arr_add (arr_add (arr_add (arr_add (arr_add (arr_add (arr_add C1 C2) C3) C4) C5) I1) I2) I3) I4) I5) O_st) B);
          dC1 = arr_sub (arr_add (arr_mul I1 (bi1 p V)) (arr_mul C2 (b01 p V))) (arr_mul C1 (arr_add (fi1 p V) (f01 p V)));
          dC2 = arr_sub (arr_add (arr_add (arr_mul C1 (f01 p V)) (arr_mul I2 (bi2 p V))) (arr_mul C3 (b02 p V))) (arr_mul C2 (arr_add (arr_add (b01 p V) (fi2 p V)) (f02 p V)));
          dC3 = arr_sub (arr_add (arr_add (arr_mul C2 (f02 p V)) (arr_mul I3 (bi3 p V))) (arr_mul C4 (b03 p V))) (arr_mul C3 (arr_add (arr_add (b02 p V) (fi3 p V)) (f03 p V)));
          dC4 = arr_sub (arr_add (arr_add (arr_mul C3 (f03 p V)) (arr_mul I4 (bi4 p V))) (arr_mul C5 (b04 p V))) (arr_mul C4 (arr_add (arr_add (b03 p V) (fi4 p V)) (f04 p V)));
          dC5 = arr_sub (arr_add (arr_add (arr_mul C4 (f04 p V)) (arr_mul I5 (bi5 p V))) (arr_mul O_st (b0O p V))) (arr_mul C5 (arr_add (arr_add (b04 p V) (fi5 p V)) (f0O p V)));
          dI1 = arr_sub (arr_add (arr_mul C1 (fi1 p V)) (arr_mul I2 (b11 p V))) (arr_mul I1 (arr_add (bi1 p V) (f11 p V)));
          dI2 = arr_sub (arr_add (arr_add (arr_mul I1 (f11 p V)) (arr_mul C2 (fi2 p V))) (arr_mul I3 (b12 p V))) (arr_mul I2 (arr_add (arr_add (b11 p V) (bi2 p V)) (f12 p V)));
          dI3 = arr_sub (arr_add (arr_add (arr_mul I2 (f12 p V)) (arr_mul C3 (fi3 p V))) (arr_mul I4 (b13 p V))) (arr_mul I3 (arr_add (arr_add (b12 p V) (bi3 p V)) (f13 p V)));
          dI4 = arr_sub (arr_add (arr_add (arr_mul I3 (f13 p V)) (arr_mul C4 (fi4 p V))) (arr_mul I5 (b14 p V))) (arr_mul I4 (arr_add (arr_add (b13 p V) (bi4 p V)) (f14 p V)));
          dI5 = arr_sub (arr_add (arr_add (arr_mul I4 (f14 p V)) (arr_mul C5 (fi5 p V))) (arr_mul I6 (b1n p V))) (arr_mul I5 (arr_add (arr_add (b14 p V) (bi5 p V)) (f1n p V)));
          dO = arr_sub (arr_add (arr_add (arr_mul C5 (f0O p V)) (arr_mul B (bip p V))) (arr_mul I6 (bin p V))) (arr_mul O_st (arr_add (arr_add (b0O p V) (fip p V)) (fin p V)));
          dB = arr_sub (arr_mul O_st (fip p V)) (arr_mul B (bip p V))
      in [dC1, dC2, dC3, dC4, dC5, dI1, dI2, dI3, dI4, dI5, dO, dB])"

text \<open>
  \<open>rhs_point\<close> reshapes one compartment's state vector to \<open>(N, 1)\<close>, applies \<open>rhs\<close> and
  takes column \<open>0\<close> of the result.
\<close>

definition rhs_point :: "params \<Rightarrow> arr \<Rightarrow> ('a::{one,plus,minus,scaleR}) list \<Rightarrow> 'a list" where
  "rhs_point p V S_point = map (\<lambda>row. row ! 0) (rhs p V (map (\<lambda>x. [x]) S_point))"

subsection \<open>Small dense linear algebra\<close>

definition dot :: "arr \<Rightarrow> arr \<Rightarrow> real" where
  "dot xs ys = sum_list (map2 (*) xs ys)"

definition matvec :: "real list list \<Rightarrow> arr \<Rightarrow> arr" where
  "matvec A x = map (\<lambda>row. dot row x) A"

definition vec_add :: "arr \<Rightarrow> arr \<Rightarrow> arr" where
  "vec_add xs ys = map2 (+) xs ys"

definition vec_sub :: "arr \<Rightarrow> arr \<Rightarrow> arr" where
  "vec_sub xs ys = map2 (-) xs ys"

definition vec_scale :: "real \<Rightarrow> arr \<Rightarrow> arr" where
  "vec_scale c xs = map ((*) c) xs"

definition eye :: "nat \<Rightarrow> real list list" where
  "eye n = map (\<lambda>i. map (\<lambda>j. if i = j then 1 else 0) [0..<n]) [0..<n]"

definition mat_sub :: "real list list \<Rightarrow> real list list \<Rightarrow> real list list" where
  "mat_sub X Y = map2 vec_sub X Y"

definition mat_scale :: "real \<Rightarrow> real list list \<Rightarrow> real list list" where
  "mat_scale c A = map (vec_scale c) A"

text \<open>
  The linear solve of the array library: elimination with row pivoting on the
  equations (a row of coefficients paired with its right-hand side entry), then back
  substitution.  The pivot of a column is the remaining row whose leading entry has the
  largest magnitude.  The arithmetic is that of the real numbers, so a result \<open>Some x\<close>
  is the solution of the system, which the floating-point routine returns up to
  rounding.  \<open>None\<close> stands for a pivot column that is entirely zero, which happens
  exactly for singular matrices.  The floating-point routine neither detects this nor
  raises: it returns an array in every case, with entries that are not finite when the
  pivot it divides by is an exact zero, and with finite entries that solve nothing when
  rounding has left a pivot that is not zero.  Which of the two occurs, and which
  entries come out, is not described here: \<open>None\<close> only says that the equations do
  not determine the result.
\<close>

type_synonym eqn = "arr \<times> real"

fun pick :: "eqn \<Rightarrow> eqn list \<Rightarrow> eqn \<times> eqn list" where
  "pick r [] = (r, [])"
| "pick r (q # qs) =
     (case pick q qs of
        (b, rest) \<Rightarrow>
          if \<bar>hd (fst r)\<bar> < \<bar>hd (fst b)\<bar> then (b, r # rest) else (r, b # rest))"

definition eliminate :: "eqn \<Rightarrow> eqn \<Rightarrow> eqn" where
  "eliminate b q =
     (let c = hd (fst q) / hd (fst b)
      in (vec_sub (tl (fst q)) (vec_scale c (tl (fst b))), snd q - c * snd b))"

lemma length_pick: "length (snd (pick r rs)) = length rs"
proof (induction rs arbitrary: r)
  case Nil
  then show ?case by simp
next
  case (Cons q qs)
  then show ?case
    using Cons.IH [of q] by (cases "pick q qs") simp
qed

function gauss :: "eqn list \<Rightarrow> arr option" where
  "gauss [] = Some []"
| "gauss (r # rs) =
     (case pick r rs of
        (b, rest) \<Rightarrow>
          if hd (fst b) = 0 then None
          else (case gauss (map (eliminate b) rest) of
                  None \<Rightarrow> None
                | Some xs \<Rightarrow> Some ((snd b - dot (tl (fst b)) xs) / hd (fst b) # xs)))"
  by pat_completeness auto
termination
proof (relation "measure length")
  fix r rs x b rest
  assume "(b, rest) = pick r rs"
  then have "length rest = length rs"
    using length_pick [of r rs] by (metis snd_conv)
  then show "(map (eliminate b) rest, r # rs) \<in> measure length" by simp
qed simp

definition solve :: "real list list \<Rightarrow> arr \<Rightarrow> arr option" where
  "solve A y = gauss (zip A y)"

text \<open>
  A system of \<open>n\<close> equations in \<open>n\<close> unknowns, and a coefficient matrix whose
  homogeneous system has the zero vector as its only solution.
\<close>

definition square :: "nat \<Rightarrow> eqn list \<Rightarrow> bool" where
  "square n rows = (length rows = n \<and> (\<forall>r \<in> set rows. length (fst r) = n))"

definition nonsingular :: "nat \<Rightarrow> arr list \<Rightarrow> bool" where
  "nonsingular n A = (\<forall>z. length z = n \<and> (\<forall>r \<in> set A. dot r z = 0) \<longrightarrow> z = replicate n 0)"

subsection \<open>The implicit step\<close>

text \<open>
  The outcomes of a call of \<open>update_state\<close>: an exception of the array library; a normal
  return after the solve of some compartment has met a singular matrix, where the
  arrays written to the cells are whatever the floating-point elimination has produced
  (entries that are not finite, or finite entries that solve nothing), which this
  development leaves unspecified, so this outcome carries no state; a normal return
  with the state written.
\<close>

datatype step = Raised error | Unspecified | Written state

text \<open>
  The local variables of \<open>update_state\<close>, as functions of the voltage array, the
  stacked state \<open>S\<close> (twelve rows of \<open>M\<close> entries) and the local step \<open>dt\<close>.  \<open>vmap\<close> runs
  over the compartments \<open>0, ..., M - 1\<close>.
\<close>

definition A_all :: "params \<Rightarrow> arr \<Rightarrow> nat \<Rightarrow> arr list \<Rightarrow> real list list list" where
  "A_all p V M S = map (jacfwd (rhs_point p V)) (T_of M S)"

definition dS_val :: "params \<Rightarrow> arr \<Rightarrow> arr list \<Rightarrow> arr list" where
  "dS_val p V S = rhs p V S"

definition b_val :: "params \<Rightarrow> arr \<Rightarrow> nat \<Rightarrow> arr list \<Rightarrow> arr list" where
  "b_val p V M S =
     map (\<lambda>m. vec_sub (T_of M (dS_val p V S) ! m) (matvec (A_all p V M S ! m) (T_of M S ! m)))
       [0..<M]"

definition lhs :: "params \<Rightarrow> arr \<Rightarrow> real \<Rightarrow> nat \<Rightarrow> arr list \<Rightarrow> real list list list" where
  "lhs p V dt M S = map (\<lambda>A. mat_sub (eye (length S)) (mat_scale dt A)) (A_all p V M S)"

definition rhs_val :: "params \<Rightarrow> arr \<Rightarrow> real \<Rightarrow> nat \<Rightarrow> arr list \<Rightarrow> arr list" where
  "rhs_val p V dt M S =
     map (\<lambda>m. vec_add (T_of M S ! m) (vec_scale dt (b_val p V M S ! m))) [0..<M]"

definition S_new :: "params \<Rightarrow> arr \<Rightarrow> real \<Rightarrow> nat \<Rightarrow> arr list \<Rightarrow> arr option list" where
  "S_new p V dt M S = map2 solve (lhs p V dt M S) (rhs_val p V dt M S)"

text \<open>
  \<open>update_state\<close> for the voltage array \<open>V\<close> and the step \<open>dt_env\<close> of the simulation
  environment.  The guards are the places where the array library raises: stacking
  cells of different shapes, \<open>len\<close> of the squeezed value of a one-compartment cell (a
  zero-dimensional array), reshaping empty cells to \<open>(-1, 0)\<close>, and combining the state
  with a voltage array of another length.
\<close>

definition update_state :: "params \<Rightarrow> arr \<Rightarrow> real \<Rightarrow> state \<Rightarrow> step" where
  "update_state p V dt_env st =
     (let dt = dt_env / 2;
          State_value = cells st;
          M = length (C1 st)
      in if \<exists>c \<in> set State_value. length c \<noteq> M then Raised ShapeError
         else if M = 1 then Raised UnsizedLen
         else if M = 0 then Raised ShapeError
         else if length V \<noteq> M \<and> length V \<noteq> 1 then Raised ShapeError
         else
           let sol = S_new p V dt M State_value
           in if None \<in> set sol then Unspecified
              else
                let S_new_T = T_of (length State_value) (map the sol)
                in Written (st\<lparr>C1 := S_new_T ! 0, C2 := S_new_T ! 1, C3 := S_new_T ! 2,
                               C4 := S_new_T ! 3, C5 := S_new_T ! 4, I1 := S_new_T ! 5,
                               I2 := S_new_T ! 6, I3 := S_new_T ! 7, I4 := S_new_T ! 8,
                               I5 := S_new_T ! 9, O_st := S_new_T ! 10,
                               B := S_new_T ! 11\<rparr>))"

text \<open>All twelve cells hold arrays of \<open>M\<close> entries.\<close>

definition shaped :: "nat \<Rightarrow> state \<Rightarrow> bool" where
  "shaped M st = (\<forall>c \<in> set (cells st). length c = M)"

subsection \<open>The channel current\<close>

record ion_info =
  E :: arr
  C :: arr

text \<open>
  \<open>current\<close> returns the value of the call together with the channel state and the ion
  information as they are after the call.
\<close>

definition current :: "params \<Rightarrow> arr \<Rightarrow> ion_info \<Rightarrow> state \<Rightarrow> (error + arr) \<times> state \<times> ion_info" where
  "current p V Na st =
     (case bc_chk (-) (E Na) V of
        Inl e \<Rightarrow> (Inl e, st, Na)
      | Inr d \<Rightarrow>
         (case bc_chk (*) (bc (*) [g_max p] (O_st st)) d of
            Inl e \<Rightarrow> (Inl e, st, Na)
          | Inr i \<Rightarrow> (Inr i, st, Na)))"


text \<open>
  The backward-Euler equation \<open>(I - h A) s' = s + h b\<close> of one compartment with voltage
  \<open>v\<close>, state \<open>s\<close> and next state \<open>s'\<close>, where \<open>A\<close> is the Jacobian of the right-hand
  side at \<open>s\<close> and \<open>b = F(s, v) - A s\<close>.
\<close>

definition backward_euler_eq :: "params \<Rightarrow> real \<Rightarrow> real \<Rightarrow> arr \<Rightarrow> arr \<Rightarrow> bool" where
  "backward_euler_eq p v h s s' =
     (let A = jacfwd (rhs_point p [v]) s;
          b = vec_sub (rhs_point p [v] s) (matvec A s)
      in matvec (mat_sub (eye 12) (mat_scale h A)) s' = vec_add s (vec_scale h b))"

section \<open>Concrete inputs\<close>

text \<open>
  Two compartments whose twelve cells were seeded with \<open>-1\<close> (first compartment) and
  with \<open>1/2\<close> (second compartment); \<open>I6\<close> has not been assigned yet.
\<close>

definition negative_seed :: state where
  "negative_seed =
     \<lparr>C1 = [-1, 1/2], C2 = [-1, 1/2], C3 = [-1, 1/2], C4 = [-1, 1/2], C5 = [-1, 1/2],
      I1 = [-1, 1/2], I2 = [-1, 1/2], I3 = [-1, 1/2], I4 = [-1, 1/2], I5 = [-1, 1/2],
      O_st = [-1, 1/2], B = [-1, 1/2], I6 = []\<rparr>"

text \<open>
  The channel as the constructor builds it by default (22 degrees Celsius, that is
  \<open>295.15\<close> Kelvin, and \<open>g_max = 15\<close>), and the state of two compartments right after
  \<open>init_state\<close> and the first \<open>pre_integral\<close>: all cells zero, remainder one.
\<close>

definition default_channel :: params where
  "default_channel = INa_Rsg_init 295.15 15"

definition initial_state :: state where
  "initial_state =
     \<lparr>C1 = [0, 0], C2 = [0, 0], C3 = [0, 0], C4 = [0, 0], C5 = [0, 0],
      I1 = [0, 0], I2 = [0, 0], I3 = [0, 0], I4 = [0, 0], I5 = [0, 0],
      O_st = [0, 0], B = [0, 0], I6 = [1, 1]\<rparr>"

text \<open>One compartment at rest: all cells zero, remainder one.\<close>

definition single_compartment :: state where
  "single_compartment =
     \<lparr>C1 = [0], C2 = [0], C3 = [0], C4 = [0], C5 = [0],
      I1 = [0], I2 = [0], I3 = [0], I4 = [0], I5 = [0],
      O_st = [0], B = [0], I6 = [1]\<rparr>"



section \<open>Properties of the normalizer\<close>

subsection \<open>Auxiliary facts on broadcasting\<close>

lemma bc_same_length:
  "length xs = length ys \<Longrightarrow> bc f xs ys = map (\<lambda>m. f (xs ! m) (ys ! m)) [0..<length xs]"
  by (rule nth_equalityI) (simp_all add: bc_def)

lemma bc_single_left: "bc f [x] ys = map (f x) ys"
  by (cases ys rule: list.exhaust; cases "tl ys") (auto simp: bc_def)

lemma bc_single_right: "bc f xs [y] = map (\<lambda>x. f x y) xs"
  by (cases xs rule: list.exhaust; cases "tl xs") (auto simp: bc_def)

lemma maximum_zero: "maximum v [0] = map (\<lambda>x. max x 0) v"
  by (simp add: maximum_def bc_single_right)

lemma clamp_sum_same_shape:
  "same_shape M es \<Longrightarrow> length t = M \<Longrightarrow>
   clamp_sum es t =
     Inr (map clamp_entry es, map (\<lambda>m. t ! m + clamped_total es m) [0..<M])"
proof (induction es arbitrary: t)
  case Nil
  then show ?case
    by (auto simp: clamped_total_def intro: nth_equalityI)
next
  case (Cons e es)
  have sh: "same_shape M es" and le: "length (arr_of e) = M"
    using Cons.prems(1) by (simp_all add: same_shape_def)
  let ?v = "map (\<lambda>x. max x 0) (arr_of e)"
  let ?t = "map (\<lambda>m. t ! m + ?v ! m) [0..<M]"
  have add: "bc_chk (+) t ?v = Inr ?t"
    using le Cons.prems(2) by (simp add: bc_chk_def compat_def bc_same_length)
  have ih: "clamp_sum es ?t =
      Inr (map clamp_entry es, map (\<lambda>m. ?t ! m + clamped_total es m) [0..<M])"
    by (rule Cons.IH [OF sh]) simp
  have tot: "map (\<lambda>m. ?t ! m + clamped_total es m) [0..<M] =
      map (\<lambda>m. t ! m + clamped_total (e # es) m) [0..<M]"
    using le by (simp add: clamped_total_def)
  show ?case
    using add ih tot by (cases e) (simp_all add: maximum_zero Let_def)
qed

lemma clamp_sum_start:
  assumes "same_shape M es" and "es \<noteq> []"
  shows "clamp_sum es [0] = Inr (map clamp_entry es, map (clamped_total es) [0..<M])"
proof -
  obtain e es' where es: "es = e # es'"
    using assms(2) by (cases es) auto
  have sh: "same_shape M es'" and le: "length (arr_of e) = M"
    using assms(1) es by (simp_all add: same_shape_def)
  let ?v = "map (\<lambda>x. max x 0) (arr_of e)"
  have add: "bc_chk (+) [0] ?v = Inr ?v"
    by (simp add: bc_chk_def compat_def bc_single_left)
  have rest: "clamp_sum es' ?v =
      Inr (map clamp_entry es', map (\<lambda>m. ?v ! m + clamped_total es' m) [0..<M])"
    by (rule clamp_sum_same_shape [OF sh]) (simp add: le)
  have tot: "map (\<lambda>m. ?v ! m + clamped_total es' m) [0..<M] =
      map (clamped_total (e # es')) [0..<M]"
    using le by (simp add: clamped_total_def)
  show ?thesis
    unfolding es using add rest tot by (cases e) (simp_all add: maximum_zero Let_def)
qed

lemma divide_all_same_shape:
  "same_shape M es \<Longrightarrow>
   divide_all es (map T [0..<M]) = Inr (map (divide_entry T) es)"
proof (induction es)
  case Nil
  then show ?case by simp
next
  case (Cons e es)
  have sh: "same_shape M es" and le: "length (arr_of e) = M"
    using Cons.prems by (simp_all add: same_shape_def)
  have den: "bc (+) (map T [0..<M]) [eps] = map (\<lambda>m. T m + eps) [0..<M]"
    by (simp add: bc_single_right)
  have quot: "bc_chk (/) (arr_of e) (map (\<lambda>m. T m + eps) [0..<M]) =
      Inr (map (\<lambda>m. arr_of e ! m / (T m + eps)) [0..<length (arr_of e)])"
    using le by (simp add: bc_chk_def compat_def bc_same_length)
  show ?case
    using Cons.IH [OF sh] den quot by (cases e) simp_all
qed

lemma same_shape_clamp: "same_shape M es \<Longrightarrow> same_shape M (map clamp_entry es)"
proof -
  have "length (arr_of (clamp_entry e)) = length (arr_of e)" for e
    by (cases e) simp_all
  then show "same_shape M es \<Longrightarrow> same_shape M (map clamp_entry es)"
    by (simp add: same_shape_def)
qed

lemma normalize_states_same_shape:
  assumes "same_shape M es"
  shows "normalize_states es =
     Inr (map (\<lambda>e. divide_entry (clamped_total es) (clamp_entry e)) es)"
proof (cases "es = []")
  case True
  then show ?thesis by (simp add: normalize_states_def)
next
  case False
  have "divide_all (map clamp_entry es) (map (clamped_total es) [0..<M]) =
      Inr (map (divide_entry (clamped_total es)) (map clamp_entry es))"
    by (rule divide_all_same_shape [OF same_shape_clamp [OF assms]])
  then show ?thesis
    using clamp_sum_start [OF assms False] by (simp add: normalize_states_def)
qed

lemma clamped_total_nonneg: "0 \<le> clamped_total es m"
  by (auto simp: clamped_total_def intro!: sum_list_nonneg)

lemma bc_pred:
  assumes "\<And>x y. x \<in> set xs \<Longrightarrow> y \<in> set ys \<Longrightarrow> P (f x y)"
  shows "\<forall>z \<in> set (bc f xs ys). P z"
proof -
  have hx: "length xs = 1 \<Longrightarrow> hd xs \<in> set xs" by (cases xs) auto
  have hy: "length ys = 1 \<Longrightarrow> hd ys \<in> set ys" by (cases ys) auto
  show ?thesis
    using assms hx hy
    by (auto simp: bc_def dest: set_zip_leftD set_zip_rightD)
qed

lemma nonneg_maximum: "nonneg (maximum v [0])"
  by (auto simp: nonneg_def maximum_zero)

lemma nonneg_add: "nonneg xs \<Longrightarrow> nonneg ys \<Longrightarrow> nonneg (bc (+) xs ys)"
  unfolding nonneg_def by (rule bc_pred) simp

lemma eps_pos: "0 < eps"
  by (simp add: eps_def)

lemma nonneg_divide:
  assumes "nonneg v" and "nonneg t"
  shows "nonneg (bc (/) v (bc (+) t [eps]))"
proof -
  have "\<forall>d \<in> set (bc (+) t [eps]). 0 \<le> d"
    using assms(2) eps_pos by (auto simp: bc_single_right nonneg_def intro: add_nonneg_nonneg)
  then show ?thesis
    using assms(1) unfolding nonneg_def by (intro bc_pred) simp
qed

lemma clamp_sum_nonneg:
  "clamp_sum es t = Inr (es', t') \<Longrightarrow> nonneg t \<Longrightarrow> nonneg t' \<and> cells_nonneg es'"
proof (induction es t arbitrary: es' t' rule: clamp_sum.induct)
  case (1 tot)
  then show ?case by (simp add: cells_nonneg_def)
next
  case (2 v es tot)
  then show ?case
    by (auto simp: Let_def bc_chk_def cells_nonneg_def nonneg_maximum nonneg_add
        split: if_splits sum.splits)
next
  case (3 a es tot)
  then show ?case
    by (auto simp: Let_def bc_chk_def cells_nonneg_def nonneg_maximum nonneg_add
        split: if_splits sum.splits)
qed

lemma divide_all_nonneg:
  "divide_all es t = Inr es' \<Longrightarrow> nonneg t \<Longrightarrow> cells_nonneg es \<Longrightarrow> cells_nonneg es'"
proof (induction es t arbitrary: es' rule: divide_all.induct)
  case (1 tot)
  then show ?case by (simp add: cells_nonneg_def)
next
  case (2 v es tot)
  then show ?case
    by (auto simp: bc_chk_def cells_nonneg_def nonneg_divide split: if_splits sum.splits)
next
  case (3 a es tot)
  then show ?case
    by (auto simp: bc_chk_def cells_nonneg_def split: if_splits sum.splits)
qed

lemma normalize_states_nonneg:
  assumes "normalize_states es = Inr es'"
  shows "cells_nonneg es'"
proof -
  obtain es1 t1 where 1: "clamp_sum es [0] = Inr (es1, t1)" and 2: "divide_all es1 t1 = Inr es'"
    using assms by (auto simp: normalize_states_def split: sum.splits)
  have "nonneg [0]" by (simp add: nonneg_def)
  from clamp_sum_nonneg [OF 1 this] divide_all_nonneg [OF 2] show ?thesis by simp
qed

lemma clamp_sum_frame:
  "clamp_sum es t = Inr (es', t') \<Longrightarrow> list_all2 frame es es'"
proof (induction es t arbitrary: es' t' rule: clamp_sum.induct)
  case (1 tot)
  then show ?case by simp
next
  case (2 v es tot)
  then show ?case
    by (auto simp: Let_def frame_def split: sum.splits)
next
  case (3 a es tot)
  then show ?case
    by (auto simp: Let_def frame_def split: sum.splits)
qed

lemma divide_all_frame:
  "divide_all es t = Inr es' \<Longrightarrow> list_all2 frame es es'"
proof (induction es t arbitrary: es' rule: divide_all.induct)
  case (1 tot)
  then show ?case by simp
next
  case (2 v es tot)
  then show ?case
    by (auto simp: frame_def split: sum.splits)
next
  case (3 a es tot)
  then show ?case
    by (auto simp: frame_def split: sum.splits)
qed

lemma frame_trans: "frame a b \<Longrightarrow> frame b c \<Longrightarrow> frame a c"
  by (cases a; cases b) (auto simp: frame_def)

lemma normalize_states_frame:
  assumes "normalize_states es = Inr es'"
  shows "list_all2 frame es es'"
proof -
  obtain es1 t1 where 1: "clamp_sum es [0] = Inr (es1, t1)" and 2: "divide_all es1 t1 = Inr es'"
    using assms by (auto simp: normalize_states_def split: sum.splits)
  show ?thesis
    using list_all2_trans [of frame frame frame es es1 es']
      clamp_sum_frame [OF 1] divide_all_frame [OF 2] frame_trans by blast
qed

lemma normalize_states_cell_value:
  assumes sh: "same_shape M es" and i: "i < length es" and c: "es ! i = Cell v"
  shows "map (\<lambda>e. divide_entry (clamped_total es) (clamp_entry e)) es ! i =
         Cell (map (\<lambda>m. max (v ! m) 0 / (clamped_total es m + eps)) [0..<M])"
proof -
  have "Cell v \<in> set es" using i c by (metis nth_mem)
  then have len: "length v = M" using sh by (auto simp: same_shape_def)
  show ?thesis using i c len by simp
qed

text \<open>
  Claim C3.  When all entries of the list have the batch shape \<open>M\<close>, the call succeeds
  and every cell ends with the value \<open>max v 0 / (T + 10 ** (-12))\<close> at each compartment,
  where \<open>T\<close> is the sum of the clamped values of all entries of the list, the plain
  arrays included.
\<close>

theorem normalize_states_clamps_and_divides:
  assumes "same_shape M es"
  shows "\<exists>es'. normalize_states es = Inr es' \<and> length es' = length es \<and>
     (\<forall>i<length es. \<forall>v. es ! i = Cell v \<longrightarrow>
        es' ! i = Cell (map (\<lambda>m. max (v ! m) 0 /
                               ((\<Sum>e\<leftarrow>es. max (arr_of e ! m) 0) + 1 / 10 ^ 12)) [0..<M]))"
  using normalize_states_same_shape [OF assms] normalize_states_cell_value [OF assms]
  by (simp add: clamped_total_def eps_def)

theorem normalize_states_clamps_and_divides_witness:
  "same_shape 2 [Cell [-1, 2], Cell [3, -5], Plain [-7, 1]] \<and>
   normalize_states [Cell [-1, 2], Cell [3, -5], Plain [-7, 1]] =
     Inr [Cell [0, 2 / (3 + 1 / 10 ^ 12)], Cell [3 / (3 + 1 / 10 ^ 12), 0], Plain [-7, 1]]"
proof -
  have sh: "same_shape 2 [Cell [-1, 2], Cell [3, -5], Plain [-7, 1]]"
    by (simp add: same_shape_def)
  obtain es' where 1: "normalize_states [Cell [-1, 2], Cell [3, -5], Plain [-7, 1]] = Inr es'"
    and 2: "length es' = 3"
    and 3: "\<forall>i<3. \<forall>v. [Cell [-1, 2], Cell [3, -5], Plain [-7, 1]] ! i = Cell v \<longrightarrow>
        es' ! i = Cell (map (\<lambda>m. max (v ! m) 0 /
          ((\<Sum>e\<leftarrow>[Cell [-1, 2], Cell [3, -5], Plain [-7, 1]]. max (arr_of e ! m) 0) + 1 / 10 ^ 12)) [0..<2])"
    using normalize_states_clamps_and_divides [OF sh] by auto
  show ?thesis
    using sh 1 by (simp add: normalize_states_def bc_chk_def compat_def maximum_def bc_def eps_def)
qed

text \<open>
  Claim C7.  Whatever the values passed in (negative ones included), after a call that
  returns every cell holds non-negative values only.
\<close>

theorem normalize_states_nonnegative:
  assumes "normalize_states es = Inr es'" and "i < length es'" and "es' ! i = Cell v"
    and "m < length v"
  shows "0 \<le> v ! m"
proof -
  have "Cell v \<in> set es'" using assms(2,3) by (metis nth_mem)
  then have "nonneg v"
    using normalize_states_nonneg [OF assms(1)] by (force simp: cells_nonneg_def)
  then show ?thesis using assms(4) by (simp add: nonneg_def)
qed

text \<open>
  Claim C4.  An entry that is a plain array is the same array after the call, although
  its clamped value is part of the total that every cell of the list was divided by.
\<close>

theorem normalize_states_plain_untouched:
  assumes "same_shape M (pre @ Plain a # post)"
  shows "\<exists>es'. normalize_states (pre @ Plain a # post) = Inr es' \<and>
     length es' = length (pre @ Plain a # post) \<and>
     es' ! length pre = Plain a \<and>
     (\<forall>j<length es'. \<forall>v. (pre @ Plain a # post) ! j = Cell v \<longrightarrow>
        es' ! j = Cell (map (\<lambda>m. max (v ! m) 0 /
           (clamped_total pre m + max (a ! m) 0 + clamped_total post m + 1 / 10 ^ 12)) [0..<M]))"
proof -
  let ?es = "pre @ Plain a # post"
  have tot: "clamped_total ?es m = clamped_total pre m + max (a ! m) 0 + clamped_total post m" for m
    by (simp add: clamped_total_def)
  have pl: "map (\<lambda>e. divide_entry (clamped_total ?es) (clamp_entry e)) ?es ! length pre = Plain a"
    by (simp add: nth_append)
  show ?thesis
    using normalize_states_same_shape [OF assms] normalize_states_cell_value [OF assms] pl
    by (simp add: tot eps_def del: map_append list.map)
qed

lemma sum_list_divide: "(\<Sum>x\<leftarrow>xs. f x / c) = (\<Sum>x\<leftarrow>xs. f x) / (c::real)"
  by (induction xs) (simp_all add: add_divide_distrib)

text \<open>
  Claim C8, amended.  For a list of cells of one batch shape, a second application
  divides every once-normalized value once more, by the sum \<open>T / (T + 10 ** (-12))\<close> of
  the once-normalized values plus \<open>10 ** (-12)\<close>, where \<open>T\<close> is the sum of the clamped
  original values.  So the twice-normalized state is the once-normalized state only up
  to that factor.
\<close>

theorem normalize_states_twice_divides_again:
  assumes len: "\<forall>v \<in> set vs. length v = M"
  shows "\<exists>es1 es2. normalize_states (map Cell vs) = Inr es1 \<and>
     normalize_states es1 = Inr es2 \<and> length es1 = length vs \<and> length es2 = length vs \<and>
     (\<forall>i<length vs. \<forall>m<M.
        arr_of (es2 ! i) ! m =
        arr_of (es1 ! i) ! m /
          ((\<Sum>v\<leftarrow>vs. max (v ! m) 0) / ((\<Sum>v\<leftarrow>vs. max (v ! m) 0) + 1 / 10 ^ 12)
           + 1 / 10 ^ 12))"
proof -
  define T where "T m = (\<Sum>v\<leftarrow>vs. max (v ! m) 0)" for m
  define T1 where "T1 m = T m / (T m + eps)" for m
  define es1 where "es1 = map (\<lambda>v. Cell (map (\<lambda>m. max (v ! m) 0 / (T m + eps)) [0..<M])) vs"
  define es2 where "es2 = map (\<lambda>v. Cell (map (\<lambda>m. (max (v ! m) 0 / (T m + eps)) / (T1 m + eps)) [0..<M])) vs"
  have T0: "0 \<le> T m" for m
    unfolding T_def by (auto intro!: sum_list_nonneg)
  have sh: "same_shape M (map Cell vs)"
    using len by (auto simp: same_shape_def)
  have ct: "clamped_total (map Cell vs) = T"
    by (rule ext) (simp add: clamped_total_def T_def comp_def)
  have n1: "normalize_states (map Cell vs) = Inr es1"
    unfolding normalize_states_same_shape [OF sh] ct es1_def using len by (simp add: comp_def)
  have sh1: "same_shape M es1"
    by (auto simp: same_shape_def es1_def)
  have ct1: "clamped_total es1 m = T1 m" if "m < M" for m
  proof -
    have "clamped_total es1 m = (\<Sum>v\<leftarrow>vs. max (v ! m) 0 / (T m + eps))"
      using that T0 [of m] eps_pos by (simp add: clamped_total_def es1_def comp_def)
    then show ?thesis
      by (simp add: sum_list_divide T1_def T_def)
  qed
  define ct where "ct = clamped_total es1"
  have ct: "ct m = T1 m" if "m < M" for m
    using ct1 [OF that] by (simp add: ct_def)
  have "map (\<lambda>e. divide_entry ct (clamp_entry e)) es1 = es2"
    using T0 eps_pos by (simp add: es1_def es2_def comp_def ct)
  then have n2: "normalize_states es1 = Inr es2"
    unfolding normalize_states_same_shape [OF sh1] ct_def by simp
  have again: "arr_of (es2 ! i) ! m =
      arr_of (es1 ! i) ! m /
        ((\<Sum>v\<leftarrow>vs. max (v ! m) 0) / ((\<Sum>v\<leftarrow>vs. max (v ! m) 0) + 1 / 10 ^ 12)
         + 1 / 10 ^ 12)"
    if i: "i < length vs" and m: "m < M" for i m
    using i m by (simp add: es1_def es2_def T1_def T_def eps_def)
  show ?thesis
    using n1 n2 again by (intro exI [of _ es1] exI [of _ es2]) (simp add: es1_def es2_def)
qed

theorem normalize_states_twice_divides_again_witness:
  "\<exists>es1 es2. normalize_states (map Cell [[1, 3], [1, 0]]) = Inr es1 \<and>
     normalize_states es1 = Inr es2 \<and>
     arr_of (es2 ! 0) ! 1 = arr_of (es1 ! 0) ! 1 / (3 / (3 + 1 / 10 ^ 12) + 1 / 10 ^ 12)"
proof -
  have 1: "\<forall>v \<in> set [[1, 3], [1, 0 :: real]]. length v = 2" by simp
  from normalize_states_twice_divides_again [OF 1] show ?thesis
    by fastforce
qed

text \<open>
  Claim C8 as stated fails.  One cell holding \<open>10 ** (-12)\<close>: one application gives
  \<open>1/2\<close>, a second one gives \<open>(1/2) / (1/2 + 10 ** (-12))\<close>, which is close to \<open>1\<close>.
\<close>

theorem normalize_states_twice_counterexample:
  "normalize_states [Cell [1 / 10 ^ 12]] = Inr [Cell [1 / 2]] \<and>
   normalize_states [Cell [1 / 2]] = Inr [Cell [500000000000 / 500000000001]] \<and>
   1 / 4 < \<bar>500000000000 / 500000000001 - 1 / (2::real)\<bar>"
  by (simp add: normalize_states_def bc_chk_def compat_def maximum_def bc_def eps_def Let_def)

theorem normalize_states_nonnegative_witness:
  "normalize_states [Cell [-1, 2], Cell [3, -5], Plain [-7, 1]] =
     Inr [Cell [0, 2 / (3 + 1 / 10 ^ 12)], Cell [3 / (3 + 1 / 10 ^ 12), 0], Plain [-7, 1]] \<and>
   (1::nat) < length [Cell [0, 2 / (3 + 1 / 10 ^ 12)], Cell [3 / (3 + 1 / 10 ^ 12), 0], Plain [-7, 1]] \<and>
   [Cell [0, 2 / (3 + 1 / 10 ^ 12)], Cell [3 / (3 + 1 / 10 ^ 12), 0], Plain [-7, 1]] ! 1 =
     Cell [3 / (3 + 1 / 10 ^ 12), 0] \<and>
   (0::nat) < length [3 / (3 + 1 / 10 ^ 12), 0 :: real] \<and>
   (0::real) \<le> [3 / (3 + 1 / 10 ^ 12), 0] ! 0"
proof -
  have ev: "normalize_states [Cell [-1, 2], Cell [3, -5], Plain [-7, 1]] =
     Inr [Cell [0, 2 / (3 + 1 / 10 ^ 12)], Cell [3 / (3 + 1 / 10 ^ 12), 0], Plain [-7, 1]]"
    by (simp add: normalize_states_def bc_chk_def compat_def maximum_def bc_def eps_def)
  have "(0::real) \<le> [3 / (3 + 1 / 10 ^ 12), 0] ! 0"
    by (rule normalize_states_nonnegative [OF ev, of 1]) simp_all
  then show ?thesis using ev by simp
qed

theorem normalize_states_plain_untouched_witness:
  "same_shape 2 ([Cell [-1, 2], Cell [3, -5]] @ Plain [-7, 1] # []) \<and>
   (\<exists>es'. normalize_states ([Cell [-1, 2], Cell [3, -5]] @ Plain [-7, 1] # []) = Inr es' \<and>
      es' ! 2 = Plain [-7, 1] \<and>
      es' ! 1 = Cell [3 / (3 + 1 / 10 ^ 12), 0])"
proof -
  have sh: "same_shape 2 ([Cell [-1, 2], Cell [3, -5]] @ Plain [-7, 1] # [])"
    by (simp add: same_shape_def)
  from normalize_states_plain_untouched [OF sh] obtain es'
    where 1: "normalize_states ([Cell [-1, 2], Cell [3, -5]] @ Plain [-7, 1] # []) = Inr es'"
      and 2: "es' ! length [Cell [-1, 2], Cell [3, -5 :: real]] = Plain [-7, 1]"
      and 3: "\<forall>j<length es'. \<forall>v. ([Cell [-1, 2], Cell [3, -5]] @ Plain [-7, 1] # []) ! j = Cell v \<longrightarrow>
        es' ! j = Cell (map (\<lambda>m. max (v ! m) 0 /
           (clamped_total [Cell [-1, 2], Cell [3, -5]] m + max ([-7, 1] ! m) 0 +
            clamped_total [] m + 1 / 10 ^ 12)) [0..<2])"
      and 4: "length es' = length ([Cell [-1, 2], Cell [3, -5]] @ Plain [-7, 1] # [])"
    by blast
  have 5: "es' ! 1 = Cell [3 / (3 + 1 / 10 ^ 12), 0]"
    using 3 [rule_format, of 1 "[3, -5]"] 4 by (simp add: clamped_total_def upt_rec)
  have 6: "es' ! 2 = Plain [-7, 1]"
    using 2 by (simp add: numeral_2_eq_2)
  show ?thesis
    using sh 1 5 6 by blast
qed

section \<open>Properties of the implicit step\<close>

lemma upt_12: "[0..<12] = [0, 1, 2, 3, 4, 5, 6, 7, 8, 9, 10, 11 :: nat]"
  by (simp add: upt_rec)

lemma bc_tab_tab: "bc f (map a [0..<M]) (map b [0..<M]) = map (\<lambda>m. f (a m) (b m)) [0..<M]"
  by (simp add: bc_same_length)

lemma bc_one_tab: "bc f [x] (map b [0..<M]) = map (\<lambda>m. f x (b m)) [0..<M]"
  by (simp add: bc_single_left)

lemma bc_tab_one: "bc f (map a [0..<M]) [y] = map (\<lambda>m. f (a m) y) [0..<M]"
  by (simp add: bc_single_right)

lemma bc_one_one: "bc f [x] [y] = [f x y]"
  by (simp add: bc_single_right)

lemmas bc_tab = bc_tab_tab bc_one_tab bc_tab_one bc_one_one

lemmas rate_defs =
  f01_def f02_def f03_def f04_def f0O_def fip_def f11_def f12_def f13_def f14_def f1n_def
  fi1_def fi2_def fi3_def fi4_def fi5_def fin_def
  b01_def b02_def b03_def b04_def b0O_def bip_def b11_def b12_def b13_def b14_def b1n_def
  bi1_def bi2_def bi3_def bi4_def bi5_def bin_def

lemmas arr_defs = arr_add_def arr_sub_def arr_mul_def

lemma rhs_tab:
  "rhs p (map v [0..<M]) (map (\<lambda>i. map (s i) [0..<M]) [0..<12]) =
   map (\<lambda>i. map (\<lambda>m. rhs_point p [v m] (map (\<lambda>i. s i m) [0..<12]) ! i) [0..<M]) [0..<12]"
  unfolding rhs_point_def
  apply (simp add: upt_12)
  apply (simp add: rhs_def Let_def rate_defs arr_defs bc_tab comp_def)
  done

lemma length_rhs: "length (rhs p V S) = 12"
  by (simp add: rhs_def Let_def)

lemma length_rhs_point: "length (rhs_point p V s) = 12"
  by (simp add: rhs_point_def length_rhs)

lemma rhs_point_tab_V0:
  "0 < k \<Longrightarrow>
   rhs_point p (map v [0..<k]) (map s [0..<12]) = rhs_point p [v 0] (map s [0..<12])"
  unfolding rhs_point_def
  apply (simp add: upt_12)
  apply (simp add: rhs_def Let_def rate_defs arr_defs bc_tab comp_def)
  done

lemma tab_12: "length s = 12 \<Longrightarrow> s = map (\<lambda>i. s ! i) [0..<12]"
  by (metis map_nth)

lemma rhs_point_V0:
  assumes "V \<noteq> []" and "length s = 12"
  shows "rhs_point p V s = rhs_point p [V ! 0] s"
proof -
  have V: "V = map (\<lambda>m. V ! m) [0..<length V]" by (simp add: map_nth)
  have k: "0 < length V" using assms(1) by simp
  show ?thesis
    using rhs_point_tab_V0 [OF k, of p "\<lambda>m. V ! m" "\<lambda>i. s ! i"]
    unfolding V [symmetric] tab_12 [OF assms(2), symmetric] .
qed

lemma tab_rows:
  assumes "length S = 12" and "\<forall>r \<in> set S. length r = M"
  shows "S = map (\<lambda>i. map (\<lambda>m. S ! i ! m) [0..<M]) [0..<12]"
proof (rule nth_equalityI)
  show "length S = length (map (\<lambda>i. map (\<lambda>m. S ! i ! m) [0..<M]) [0..<12])"
    using assms(1) by simp
next
  fix i assume i: "i < length S"
  then have "length (S ! i) = M" using assms(2) by simp
  then have "S ! i = map (\<lambda>m. S ! i ! m) [0..<M]" by (metis map_nth)
  then show "S ! i = map (\<lambda>i. map (\<lambda>m. S ! i ! m) [0..<M]) [0..<12] ! i"
    using i assms(1) by simp
qed

lemma col_tab:
  assumes "length S = 12"
  shows "map (\<lambda>r. r ! m) S = map (\<lambda>i. S ! i ! m) [0..<12]"
  using assms by (intro nth_equalityI) simp_all

lemma rhs_col:
  assumes V: "length V = M" and S: "length S = 12" "\<forall>r \<in> set S. length r = M"
    and m: "m < M"
  shows "map (\<lambda>r. r ! m) (rhs p V S) = rhs_point p [V ! m] (map (\<lambda>r. r ! m) S)"
proof -
  have Vt: "V = map (\<lambda>m. V ! m) [0..<M]" using V by (metis map_nth)
  let ?F = "\<lambda>m. rhs_point p [V ! m] (map (\<lambda>i. S ! i ! m) [0..<12])"
  have "rhs p V S = map (\<lambda>i. map (\<lambda>m. ?F m ! i) [0..<M]) [0..<12]"
    using rhs_tab [of p "\<lambda>m. V ! m" M "\<lambda>i m. S ! i ! m"]
    unfolding Vt [symmetric] tab_rows [OF S, symmetric] .
  then have "map (\<lambda>r. r ! m) (rhs p V S) = map (\<lambda>i. ?F m ! i) [0..<12]"
    using m by simp
  also have "\<dots> = ?F m"
    using length_rhs_point [of p "[V ! m]" "map (\<lambda>i. S ! i ! m) [0..<12]"]
    by (metis map_nth)
  finally show ?thesis by (simp add: col_tab [OF S(1)])
qed

lemma rows_rhs:
  assumes V: "length V = M" and S: "length S = 12" "\<forall>r \<in> set S. length r = M"
  shows "\<forall>r \<in> set (rhs p V S). length r = M"
proof -
  have Vt: "V = map (\<lambda>m. V ! m) [0..<M]" using V by (metis map_nth)
  let ?F = "\<lambda>m. rhs_point p [V ! m] (map (\<lambda>i. S ! i ! m) [0..<12])"
  have "rhs p V S = map (\<lambda>i. map (\<lambda>m. ?F m ! i) [0..<M]) [0..<12]"
    using rhs_tab [of p "\<lambda>m. V ! m" M "\<lambda>i m. S ! i ! m"]
    unfolding Vt [symmetric] tab_rows [OF S, symmetric] .
  then show ?thesis by (metis (no_types, lifting) imageE length_map length_upt minus_nat.diff_0 set_map)
qed

lemma dual_simps:
  "Dual a b + Dual c d = Dual (a + c) (b + d)"
  "Dual a b - Dual c d = Dual (a - c) (b - d)"
  "scaleR k (Dual a b) = Dual (k * a) (k * b)"
  "(1::dual) = Dual 1 0"
  by (simp_all add: plus_dual_def minus_dual_def scaleR_dual_def one_dual_def)

lemma length_seed: "length (seed x j) = length x"
  by (simp add: seed_def)

lemma seed_12: "length x = 12 \<Longrightarrow>
  seed x j = map (\<lambda>i. Dual (x ! i) (if i = j then 1 else 0)) [0..<12]"
  by (simp add: seed_def)

lemma jacfwd_V0:
  assumes "V \<noteq> []" and "length x = 12"
  shows "jacfwd (rhs_point p V) x = jacfwd (rhs_point p [V ! 0]) x"
proof -
  have "rhs_point p V (seed x j) = rhs_point p [V ! 0] (seed x j)" for j
    by (rule rhs_point_V0 [OF assms(1)]) (simp add: length_seed assms(2))
  then show ?thesis
    unfolding jacfwd_def by simp
qed

lemma tangent_rhs_point_indep:
  "map tangent (rhs_point p [v] (map (\<lambda>i. Dual (a i) (t i)) [0..<12])) =
   map tangent (rhs_point p [v] (map (\<lambda>i. Dual (a' i) (t i)) [0..<12]))"
  unfolding rhs_point_def
  apply (simp add: upt_12)
  apply (simp add: rhs_def Let_def rate_defs arr_defs bc_one_one dual_simps)
  done

lemma jacfwd_state_indep:
  assumes "length x = 12" and "length y = 12"
  shows "jacfwd (rhs_point p [v]) x = jacfwd (rhs_point p [v]) y"
proof -
  have "map tangent (rhs_point p [v] (seed x j)) = map tangent (rhs_point p [v] (seed y j))" for j
    unfolding seed_12 [OF assms(1)] seed_12 [OF assms(2)]
    by (rule tangent_rhs_point_indep)
  then show ?thesis
    unfolding jacfwd_def by (simp add: length_rhs_point assms)
qed

lemma jacfwd_shape:
  "length (jacfwd (rhs_point p V) x) = 12"
  "\<forall>r \<in> set (jacfwd (rhs_point p V) x). length r = length x"
  by (auto simp: jacfwd_def T_of_def col_def length_rhs_point)

lemma dot_Cons: "dot (a # as) (x # xs) = a * x + dot as xs"
  by (simp add: dot_def)

lemma dot_Nil: "dot [] xs = 0"
  by (simp add: dot_def)

lemma dot_sub_scale:
  "length as = length bs \<Longrightarrow>
   dot (vec_sub as (vec_scale c bs)) xs = dot as xs - c * dot bs xs"
proof (induction as bs arbitrary: xs rule: list_induct2)
  case Nil
  then show ?case by (simp add: dot_def vec_sub_def vec_scale_def)
next
  case (Cons a as b bs)
  show ?case
  proof (cases xs)
    case Nil
    then show ?thesis by (simp add: dot_def vec_sub_def vec_scale_def)
  next
    case (Cons x xs')
    have "dot (vec_sub (a # as) (vec_scale c (b # bs))) (x # xs') =
        (a - c * b) * x + dot (vec_sub as (vec_scale c bs)) xs'"
      by (simp add: dot_def vec_sub_def vec_scale_def)
    then show ?thesis
      using Cons.IH [of xs'] Cons by (simp add: dot_Cons algebra_simps)
  qed
qed

lemma pick_set: "pick r rs = (b, rest) \<Longrightarrow> set (b # rest) = set (r # rs)"
proof (induction rs arbitrary: r b rest)
  case Nil
  then show ?case by auto
next
  case (Cons q qs)
  obtain b' rest' where p: "pick q qs = (b', rest')" by (cases "pick q qs")
  have ih: "insert b' (set rest') = insert q (set qs)"
    using Cons.IH [OF p] by simp
  show ?case
  proof (cases "\<bar>hd (fst r)\<bar> < \<bar>hd (fst b')\<bar>")
    case True
    then have "b = b'" "rest = r # rest'" using Cons.prems p by simp_all
    then have "set (b # rest) = insert r (insert b' (set rest'))" by auto
    then show ?thesis unfolding ih by simp
  next
    case False
    then have "b = r" "rest = b' # rest'" using Cons.prems p by simp_all
    then have "set (b # rest) = insert r (insert b' (set rest'))" by simp
    then show ?thesis unfolding ih by simp
  qed
qed

lemma pick_length: "pick r rs = (b, rest) \<Longrightarrow> length rest = length rs"
  using length_pick [of r rs] by simp

lemma square_reduce:
  assumes sq: "square (Suc n) (r # rs)" and p: "pick r rs = (b, rest)"
  shows "square n (map (eliminate b) rest)"
    and "length (fst b) = Suc n"
    and "\<forall>q \<in> set rest. length (fst q) = Suc n"
proof -
  have mem: "set (b # rest) = set (r # rs)" by (rule pick_set [OF p])
  have all: "\<forall>q \<in> set (b # rest). length (fst q) = Suc n"
    using sq unfolding mem square_def by simp
  show "length (fst b) = Suc n" using all by simp
  show r: "\<forall>q \<in> set rest. length (fst q) = Suc n" using all by simp
  have "length rest = n" using pick_length [OF p] sq by (simp add: square_def)
  moreover have "length (fst (eliminate b q)) = n" if "q \<in> set rest" for q
    using that all by (simp add: eliminate_def Let_def vec_sub_def vec_scale_def)
  ultimately show "square n (map (eliminate b) rest)"
    by (simp add: square_def)
qed

lemma hd_tl_len: "length xs = Suc n \<Longrightarrow> xs = hd xs # tl xs"
  by (cases xs) simp_all

lemma eliminate_dot:
  assumes "length (fst b) = Suc n" "length (fst q) = Suc n" "hd (fst b) \<noteq> 0"
  shows "dot (fst (eliminate b q)) xs - snd (eliminate b q) =
         (dot (fst q) (x0 # xs) - snd q) - (hd (fst q) / hd (fst b)) * (dot (fst b) (x0 # xs) - snd b)"
proof -
  obtain hb tb where b: "fst b = hb # tb" "length tb = n"
    using assms(1) by (cases "fst b") auto
  obtain hq tq where q: "fst q = hq # tq" "length tq = n"
    using assms(2) by (cases "fst q") auto
  have hb: "hb \<noteq> 0" using assms(3) b by simp
  have "dot (vec_sub tq (vec_scale (hq / hb) tb)) xs = dot tq xs - (hq / hb) * dot tb xs"
    by (rule dot_sub_scale) (simp add: b q)
  then show ?thesis
    using hb by (simp add: eliminate_def Let_def b q dot_Cons field_simps)
qed

lemma gauss_sound:
  "square n rows \<Longrightarrow> gauss rows = Some xs \<Longrightarrow>
   length xs = n \<and> (\<forall>r \<in> set rows. dot (fst r) xs = snd r)"
proof (induction rows arbitrary: n xs rule: gauss.induct)
  case 1
  then show ?case by (simp add: square_def)
next
  case (2 r rs)
  obtain b rest where p: "pick r rs = (b, rest)" by (cases "pick r rs")
  obtain k where n: "n = Suc k" using "2.prems"(1) by (cases n) (auto simp: square_def)
  have hb: "hd (fst b) \<noteq> 0"
    using "2.prems"(2) p by (auto split: if_splits)
  obtain ys where g: "gauss (map (eliminate b) rest) = Some ys"
    and xs: "xs = (snd b - dot (tl (fst b)) ys) / hd (fst b) # ys"
    using "2.prems"(2) p hb by (auto split: option.splits)
  note red = square_reduce [OF "2.prems"(1) [unfolded n] p]
  have ih: "length ys = k \<and> (\<forall>q \<in> set (map (eliminate b) rest). dot (fst q) ys = snd q)"
    using "2.IH" [OF p [symmetric] hb red(1) g] .
  let ?x0 = "(snd b - dot (tl (fst b)) ys) / hd (fst b)"
  have fb: "fst b = hd (fst b) # tl (fst b)" by (rule hd_tl_len [OF red(2)])
  have brow: "dot (fst b) (?x0 # ys) = snd b"
    by (subst fb) (simp add: dot_Cons hb)
  have qrow: "dot (fst q) (?x0 # ys) = snd q" if q: "q \<in> set rest" for q
  proof -
    have "dot (fst (eliminate b q)) ys = snd (eliminate b q)"
      using ih q by simp
    moreover have "length (fst q) = Suc k" using red(3) q by simp
    ultimately show ?thesis
      using eliminate_dot [OF red(2) _ hb, of q ys ?x0] brow by simp
  qed
  have "\<forall>q \<in> set (b # rest). dot (fst q) xs = snd q"
    using brow qrow xs by simp
  then have "\<forall>q \<in> set (r # rs). dot (fst q) xs = snd q"
    unfolding pick_set [OF p] .
  then show ?case using ih xs n by simp
qed


lemma eliminate_fst: "fst (eliminate (fst b, c) (fst q, d)) = fst (eliminate b q)"
  by (simp add: eliminate_def Let_def)

lemma eliminate_dot_hom:
  assumes "length (fst b) = Suc n" "length (fst q) = Suc n" "hd (fst b) \<noteq> 0"
  shows "dot (fst (eliminate b q)) zs =
         dot (fst q) (z0 # zs) - (hd (fst q) / hd (fst b)) * dot (fst b) (z0 # zs)"
proof -
  have "snd (eliminate (fst b, 0) (fst q, 0)) = 0"
    by (simp add: eliminate_def Let_def)
  then show ?thesis
    using eliminate_dot [of "(fst b, 0)" n "(fst q, 0)" zs z0] assms
    by (simp add: eliminate_fst)
qed

lemma dot_zeros: "dot xs (replicate k 0) = 0"
proof (induction xs arbitrary: k)
  case Nil
  then show ?case by (simp add: dot_def)
next
  case (Cons a xs)
  then show ?case by (cases k) (simp_all add: dot_def)
qed

lemma pick_max:
  "pick r rs = (b, rest) \<Longrightarrow> \<forall>q \<in> set (r # rs). \<bar>hd (fst q)\<bar> \<le> \<bar>hd (fst b)\<bar>"
proof (induction rs arbitrary: r b rest)
  case Nil
  then show ?case by auto
next
  case (Cons q qs)
  obtain b' rest' where p: "pick q qs = (b', rest')" by (cases "pick q qs")
  have ih: "\<forall>x \<in> set (q # qs). \<bar>hd (fst x)\<bar> \<le> \<bar>hd (fst b')\<bar>"
    by (rule Cons.IH [OF p])
  show ?case
  proof (cases "\<bar>hd (fst r)\<bar> < \<bar>hd (fst b')\<bar>")
    case True
    then have "b = b'" using Cons.prems p by simp
    then show ?thesis using ih True by auto
  next
    case False
    then have "b = r" using Cons.prems p by simp
    then show ?thesis using ih False by fastforce
  qed
qed


lemma gauss_complete:
  "square n rows \<Longrightarrow> nonsingular n (map fst rows) \<Longrightarrow> \<exists>xs. gauss rows = Some xs"
proof (induction rows arbitrary: n rule: gauss.induct)
  case 1
  then show ?case by simp
next
  case (2 r rs)
  obtain b rest where p: "pick r rs = (b, rest)" by (cases "pick r rs")
  obtain k where n: "n = Suc k" using "2.prems"(1) by (cases n) (auto simp: square_def)
  note red = square_reduce [OF "2.prems"(1) [unfolded n] p]
  have len: "\<forall>q \<in> set (r # rs). length (fst q) = Suc k"
    using "2.prems"(1) by (simp add: square_def n)
  have hb: "hd (fst b) \<noteq> 0"
  proof
    assume 0: "hd (fst b) = 0"
    have "\<forall>q \<in> set (map fst (r # rs)). dot q (1 # replicate k 0) = 0"
    proof
      fix e assume "e \<in> set (map fst (r # rs))"
      then obtain q where q: "q \<in> set (r # rs)" and e: "e = fst q"
        unfolding set_map by blast
      have "\<bar>hd (fst q)\<bar> \<le> \<bar>hd (fst b)\<bar>" using pick_max [OF p] q by blast
      then have h: "hd (fst q) = 0" using 0 by simp
      have "fst q = hd (fst q) # tl (fst q)"
        using len q by (intro hd_tl_len [of _ k]) blast
      then have "dot (fst q) (1 # replicate k 0) = hd (fst q) * 1 + dot (tl (fst q)) (replicate k 0)"
        by (metis dot_Cons)
      then show "dot e (1 # replicate k 0) = 0" by (simp add: e h dot_zeros)
    qed
    moreover have "length (1 # replicate k (0::real)) = Suc k" by simp
    ultimately have "1 # replicate k 0 = replicate (Suc k) (0::real)"
      using "2.prems"(2) unfolding nonsingular_def n by blast
    then show False by simp
  qed
  have fb: "fst b = hd (fst b) # tl (fst b)" by (rule hd_tl_len [OF red(2)])
  have "nonsingular k (map fst (map (eliminate b) rest))"
    unfolding nonsingular_def
  proof (intro allI impI)
    fix zs
    assume a: "length zs = k \<and> (\<forall>e \<in> set (map fst (map (eliminate b) rest)). dot e zs = 0)"
    define z0 where "z0 = - dot (tl (fst b)) zs / hd (fst b)"
    have brow: "dot (fst b) (z0 # zs) = 0"
      by (subst fb) (simp add: dot_Cons z0_def hb)
    have qrow: "dot (fst q) (z0 # zs) = 0" if q: "q \<in> set rest" for q
    proof -
      have "length (fst q) = Suc k" using red(3) q by simp
      from eliminate_dot_hom [OF red(2) this hb, of zs z0] a q brow
      show ?thesis by simp
    qed
    have "\<forall>q \<in> set (b # rest). dot (fst q) (z0 # zs) = 0"
      using brow qrow by simp
    then have "\<forall>q \<in> set (r # rs). dot (fst q) (z0 # zs) = 0"
      unfolding pick_set [OF p] .
    then have "\<forall>e \<in> set (map fst (r # rs)). dot e (z0 # zs) = 0"
      unfolding set_map by blast
    moreover have "length (z0 # zs) = Suc k" using a by simp
    ultimately have "z0 # zs = replicate (Suc k) 0"
      using "2.prems"(2) unfolding nonsingular_def n by blast
    then show "zs = replicate k 0" by simp
  qed
  from "2.IH" [OF p [symmetric] hb red(1) this]
  obtain ys where "gauss (map (eliminate b) rest) = Some ys" by blast
  then show ?case using p hb by simp
qed

lemma square_zip:
  assumes "length A = n" "\<forall>r \<in> set A. length r = n" "length y = n"
  shows "square n (zip A y)"
  using assms by (auto simp: square_def dest: set_zip_leftD)

lemma solve_sound:
  assumes A: "length A = n" "\<forall>r \<in> set A. length r = n" and y: "length y = n"
    and s: "solve A y = Some x"
  shows "length x = n \<and> matvec A x = y"
proof -
  have g: "length x = n \<and> (\<forall>r \<in> set (zip A y). dot (fst r) x = snd r)"
    using gauss_sound [OF square_zip [OF A y]] s by (simp add: solve_def)
  have "matvec A x = y"
  proof (rule nth_equalityI)
    show "length (matvec A x) = length y" using A y by (simp add: matvec_def)
  next
    fix i assume "i < length (matvec A x)"
    then have i: "i < n" using A by (simp add: matvec_def)
    then have "(A ! i, y ! i) \<in> set (zip A y)"
      using A y by (metis length_zip min.idem nth_mem nth_zip)
    then have "dot (A ! i) x = y ! i" using g by fastforce
    then show "matvec A x ! i = y ! i" using i A by (simp add: matvec_def)
  qed
  then show ?thesis using g by simp
qed

lemma map_fst_zip_eq: "length A = length y \<Longrightarrow> map fst (zip A y) = A"
  by simp


lemma solve_complete:
  assumes A: "length A = n" "\<forall>r \<in> set A. length r = n" and y: "length y = n"
    and ns: "nonsingular n A"
  shows "\<exists>x. solve A y = Some x"
  using gauss_complete [OF square_zip [OF A y]] ns A y by (simp add: solve_def)

text \<open>Shapes inside the step.\<close>

lemma T_of_nth: "j < n \<Longrightarrow> T_of n rows ! j = col j rows"
  by (simp add: T_of_def)

lemma length_col: "length (col j rows) = length rows"
  by (simp add: col_def)

lemma A_all_nth:
  "m < M \<Longrightarrow> A_all p V M S ! m = jacfwd (rhs_point p V) (col m S)"
  by (simp add: A_all_def T_of_def)

lemma lhs_nth:
  "m < M \<Longrightarrow> lhs p V dt M S ! m =
     mat_sub (eye (length S)) (mat_scale dt (jacfwd (rhs_point p V) (col m S)))"
  by (simp add: lhs_def A_all_def T_of_def)

lemma rhs_val_nth:
  "m < M \<Longrightarrow> rhs_val p V dt M S ! m =
     vec_add (col m S)
       (vec_scale dt (vec_sub (col m (rhs p V S))
          (matvec (jacfwd (rhs_point p V) (col m S)) (col m S))))"
  by (simp add: rhs_val_def b_val_def dS_val_def A_all_def T_of_def)

lemma S_new_nth:
  "m < M \<Longrightarrow> S_new p V dt M S ! m = solve (lhs p V dt M S ! m) (rhs_val p V dt M S ! m)"
  by (simp add: S_new_def lhs_def rhs_val_def A_all_def T_of_def)

lemma length_S_new: "length (S_new p V dt M S) = M"
  by (simp add: S_new_def lhs_def rhs_val_def A_all_def T_of_def)

lemma lhs_square:
  assumes "m < M" "length S = 12"
  shows "length (lhs p V dt M S ! m) = 12"
    and "\<forall>r \<in> set (lhs p V dt M S ! m). length r = 12"
proof -
  let ?J = "jacfwd (rhs_point p V) (col m S)"
  have J: "length ?J = 12" "\<forall>r \<in> set ?J. length r = 12"
    using jacfwd_shape [of p V "col m S"] assms(2) by (simp_all add: length_col)
  have l: "lhs p V dt M S ! m = mat_sub (eye 12) (mat_scale dt ?J)"
    using lhs_nth [OF assms(1)] assms(2) by simp
  show "length (lhs p V dt M S ! m) = 12"
    unfolding l using J by (simp add: mat_sub_def mat_scale_def eye_def)
  show "\<forall>r \<in> set (lhs p V dt M S ! m). length r = 12"
    unfolding l mat_sub_def mat_scale_def
  proof
    fix r assume "r \<in> set (map2 vec_sub (eye 12) (map (vec_scale dt) ?J))"
    then obtain e j where "(e, j) \<in> set (zip (eye 12) (map (vec_scale dt) ?J))"
      and r: "r = vec_sub e j" by auto
    then have "e \<in> set (eye 12)" "j \<in> set (map (vec_scale dt) ?J)"
      by (auto dest: set_zip_leftD set_zip_rightD)
    then have "length e = 12" "length j = 12"
      using J by (auto simp: eye_def vec_scale_def)
    then show "length r = 12" by (simp add: r vec_sub_def)
  qed
qed

lemma length_rhs_val:
  assumes "m < M" "length S = 12"
  shows "length (rhs_val p V dt M S ! m) = 12"
proof -
  have "length (matvec (jacfwd (rhs_point p V) (col m S)) (col m S)) = 12"
    using jacfwd_shape(1) [of p V "col m S"] by (simp add: matvec_def)
  then show ?thesis
    unfolding rhs_val_nth [OF assms(1)]
    by (simp add: vec_add_def vec_sub_def vec_scale_def length_col assms(2) length_rhs)
qed

lemma shaped_C1: "shaped M st \<Longrightarrow> length (C1 st) = M"
  by (simp add: shaped_def cells_def)

lemma length_cells: "length (cells st) = 12"
  by (simp add: cells_def)

lemma update_state_shaped:
  assumes "shaped M st" and "2 \<le> M" and "length V = M"
  shows "update_state p V dt st =
     (if None \<in> set (S_new p V (dt / 2) M (cells st)) then Unspecified
      else Written (st\<lparr>
        C1 := T_of 12 (map the (S_new p V (dt / 2) M (cells st))) ! 0,
        C2 := T_of 12 (map the (S_new p V (dt / 2) M (cells st))) ! 1,
        C3 := T_of 12 (map the (S_new p V (dt / 2) M (cells st))) ! 2,
        C4 := T_of 12 (map the (S_new p V (dt / 2) M (cells st))) ! 3,
        C5 := T_of 12 (map the (S_new p V (dt / 2) M (cells st))) ! 4,
        I1 := T_of 12 (map the (S_new p V (dt / 2) M (cells st))) ! 5,
        I2 := T_of 12 (map the (S_new p V (dt / 2) M (cells st))) ! 6,
        I3 := T_of 12 (map the (S_new p V (dt / 2) M (cells st))) ! 7,
        I4 := T_of 12 (map the (S_new p V (dt / 2) M (cells st))) ! 8,
        I5 := T_of 12 (map the (S_new p V (dt / 2) M (cells st))) ! 9,
        O_st := T_of 12 (map the (S_new p V (dt / 2) M (cells st))) ! 10,
        B := T_of 12 (map the (S_new p V (dt / 2) M (cells st))) ! 11\<rparr>))"
proof -
  have M: "length (C1 st) = M" by (rule shaped_C1 [OF assms(1)])
  have g: "\<not> (\<exists>c \<in> set (cells st). length c \<noteq> M)"
    using assms(1) by (simp add: shaped_def)
  show ?thesis
    unfolding update_state_def Let_def M
    using g assms(2,3) by (simp add: length_cells)
qed

lemma update_state_Written_shape:
  assumes "update_state p V dt st = Written st'"
  shows "shaped (length (C1 st)) st \<and> 2 \<le> length (C1 st)"
proof -
  have "\<not> (\<exists>c \<in> set (cells st). length c \<noteq> length (C1 st))"
    using assms unfolding update_state_def Let_def by (auto split: if_splits)
  moreover have "length (C1 st) \<noteq> 1" "length (C1 st) \<noteq> 0"
    using assms unfolding update_state_def Let_def by (auto split: if_splits)
  moreover have "2 \<le> n" if "n \<noteq> 1" "n \<noteq> 0" for n :: nat
    using that by arith
  ultimately show ?thesis unfolding shaped_def by blast
qed

lemma cells_update:
  "cells (st\<lparr>C1 := a0, C2 := a1, C3 := a2, C4 := a3, C5 := a4, I1 := a5, I2 := a6,
             I3 := a7, I4 := a8, I5 := a9, O_st := a10, B := a11\<rparr>) =
   [a0, a1, a2, a3, a4, a5, a6, a7, a8, a9, a10, a11]"
  by (simp add: cells_def)

lemma T_of_12: "T_of 12 xs = [T_of 12 xs ! 0, T_of 12 xs ! 1, T_of 12 xs ! 2, T_of 12 xs ! 3,
   T_of 12 xs ! 4, T_of 12 xs ! 5, T_of 12 xs ! 6, T_of 12 xs ! 7, T_of 12 xs ! 8,
   T_of 12 xs ! 9, T_of 12 xs ! 10, T_of 12 xs ! 11]"
  by (simp add: T_of_def upt_12)

lemma update_state_Written_cells:
  assumes w: "update_state p V dt st = Written st'" and V: "length V = length (C1 st)"
  shows "None \<notin> set (S_new p V (dt / 2) (length (C1 st)) (cells st))"
    and "cells st' = T_of 12 (map the (S_new p V (dt / 2) (length (C1 st)) (cells st)))"
proof -
  note sh = update_state_Written_shape [OF w]
  note eq = update_state_shaped [OF sh [THEN conjunct1] sh [THEN conjunct2] V, of p dt]
  show n: "None \<notin> set (S_new p V (dt / 2) (length (C1 st)) (cells st))"
    using w eq by (auto split: if_splits)
  have "st' = st\<lparr>
        C1 := T_of 12 (map the (S_new p V (dt / 2) (length (C1 st)) (cells st))) ! 0,
        C2 := T_of 12 (map the (S_new p V (dt / 2) (length (C1 st)) (cells st))) ! 1,
        C3 := T_of 12 (map the (S_new p V (dt / 2) (length (C1 st)) (cells st))) ! 2,
        C4 := T_of 12 (map the (S_new p V (dt / 2) (length (C1 st)) (cells st))) ! 3,
        C5 := T_of 12 (map the (S_new p V (dt / 2) (length (C1 st)) (cells st))) ! 4,
        I1 := T_of 12 (map the (S_new p V (dt / 2) (length (C1 st)) (cells st))) ! 5,
        I2 := T_of 12 (map the (S_new p V (dt / 2) (length (C1 st)) (cells st))) ! 6,
        I3 := T_of 12 (map the (S_new p V (dt / 2) (length (C1 st)) (cells st))) ! 7,
        I4 := T_of 12 (map the (S_new p V (dt / 2) (length (C1 st)) (cells st))) ! 8,
        I5 := T_of 12 (map the (S_new p V (dt / 2) (length (C1 st)) (cells st))) ! 9,
        O_st := T_of 12 (map the (S_new p V (dt / 2) (length (C1 st)) (cells st))) ! 10,
        B := T_of 12 (map the (S_new p V (dt / 2) (length (C1 st)) (cells st))) ! 11\<rparr>"
    using w n unfolding eq by simp
  then show "cells st' = T_of 12 (map the (S_new p V (dt / 2) (length (C1 st)) (cells st)))"
    by (subst T_of_12) (simp only: cells_update)
qed

lemma shaped_rows: "shaped M st \<Longrightarrow> \<forall>r \<in> set (cells st). length r = M"
  by (simp add: shaped_def)

lemma col_T_of:
  assumes "m < length xs" and "length (xs ! m) = n"
  shows "col m (T_of n xs) = xs ! m"
proof (rule nth_equalityI)
  show "length (col m (T_of n xs)) = length (xs ! m)"
    using assms by (simp add: col_def T_of_def)
next
  fix j assume "j < length (col m (T_of n xs))"
  then have j: "j < n" by (simp add: col_def T_of_def)
  then show "col m (T_of n xs) ! j = xs ! m ! j"
    using assms by (simp add: col_def T_of_def)
qed

text \<open>
  The linear system that a returning step has solved for compartment \<open>m\<close>: the matrix is
  built from the Jacobian at the voltage of compartment \<open>0\<close>, the right-hand side from
  the derivative at the voltage of compartment \<open>m\<close>.
\<close>

lemma update_state_system:
  assumes w: "update_state p V dt st = Written st'"
    and V: "length V = length (C1 st)" and m: "m < length (C1 st)"
  shows "length (col m (cells st')) = 12"
    and "matvec (mat_sub (eye 12)
             (mat_scale (dt / 2) (jacfwd (rhs_point p [V ! 0]) (col m (cells st)))))
           (col m (cells st')) =
         vec_add (col m (cells st))
           (vec_scale (dt / 2)
              (vec_sub (rhs_point p [V ! m] (col m (cells st)))
                 (matvec (jacfwd (rhs_point p [V ! 0]) (col m (cells st)))
                    (col m (cells st)))))"
proof -
  let ?M = "length (C1 st)"
  let ?S = "cells st"
  let ?sol = "S_new p V (dt / 2) ?M ?S"
  note sh = update_state_Written_shape [OF w]
  note wc = update_state_Written_cells [OF w V]
  have Vne: "V \<noteq> []" using V m by auto
  have "?sol ! m \<in> set ?sol" using m by (simp add: length_S_new)
  then have "?sol ! m \<noteq> None" using wc(1) by metis
  then obtain x where x: "?sol ! m = Some x" by blast
  then have s: "solve (lhs p V (dt / 2) ?M ?S ! m) (rhs_val p V (dt / 2) ?M ?S ! m) = Some x"
    using S_new_nth [OF m] by simp
  note sq = lhs_square [OF m length_cells, of p V "dt / 2"]
  note snd = solve_sound [OF sq length_rhs_val [OF m length_cells] s]
  have xm: "map the ?sol ! m = x" using x m by (simp add: length_S_new)
  have cm: "col m (cells st') = x"
    unfolding wc(2) using col_T_of [of m "map the ?sol" 12] xm snd m
    by (simp add: length_S_new)
  show "length (col m (cells st')) = 12" using cm snd by simp
  have J: "jacfwd (rhs_point p V) (col m ?S) = jacfwd (rhs_point p [V ! 0]) (col m ?S)"
    by (rule jacfwd_V0 [OF Vne]) (simp add: length_col length_cells)
  have d: "col m (rhs p V ?S) = rhs_point p [V ! m] (col m ?S)"
    unfolding col_def
    by (rule rhs_col [OF V length_cells shaped_rows [OF sh [THEN conjunct1]] m])
  show "matvec (mat_sub (eye 12)
             (mat_scale (dt / 2) (jacfwd (rhs_point p [V ! 0]) (col m (cells st)))))
           (col m (cells st')) =
         vec_add (col m (cells st))
           (vec_scale (dt / 2)
              (vec_sub (rhs_point p [V ! m] (col m (cells st)))
                 (matvec (jacfwd (rhs_point p [V ! 0]) (col m (cells st)))
                    (col m (cells st)))))"
    using snd unfolding cm lhs_nth [OF m] rhs_val_nth [OF m] J d
    by (simp add: length_cells)
qed

subsection \<open>The channel current\<close>

text \<open>
  Claim C10.  For a voltage array and a reversal potential with one entry per
  compartment, \<open>current\<close> returns \<open>g_max * O * (E - V)\<close> at every compartment, and the
  channel state and the ion information after the call are the ones before it.
\<close>

theorem current_value_and_frame:
  assumes "length (O_st st) = M" and "length V = M" and "length (E Na) = M"
  shows "current p V Na st =
     (Inr (map (\<lambda>m. g_max p * O_st st ! m * (E Na ! m - V ! m)) [0..<M]), st, Na)"
proof -
  have d: "bc_chk (-) (E Na) V = Inr (map (\<lambda>m. E Na ! m - V ! m) [0..<M])"
    using assms by (simp add: bc_chk_def compat_def bc_same_length)
  have g: "bc (*) [g_max p] (O_st st) = map (\<lambda>m. g_max p * O_st st ! m) [0..<M]"
    using assms(1) by (intro nth_equalityI) (simp_all add: bc_single_left)
  have "bc_chk (*) (map (\<lambda>m. g_max p * O_st st ! m) [0..<M]) (map (\<lambda>m. E Na ! m - V ! m) [0..<M]) =
      Inr (map (\<lambda>m. g_max p * O_st st ! m * (E Na ! m - V ! m)) [0..<M])"
    by (simp add: bc_chk_def compat_def bc_tab_tab)
  then show ?thesis
    by (simp add: current_def d g)
qed

theorem current_value_and_frame_witness:
  "current (INa_Rsg_init 295.15 15) [-65, -60] \<lparr>E = [50, 50], C = [0, 0]\<rparr> negative_seed =
     (Inr [-1725, 825], negative_seed, \<lparr>E = [50, 50], C = [0, 0]\<rparr>)"
proof -
  have 1: "length (O_st negative_seed) = 2" by (simp add: negative_seed_def)
  have 2: "length [-65, -60 :: real] = 2" by simp
  have 3: "length (E \<lparr>E = [50, 50], C = [0, 0]\<rparr>) = 2" by simp
  show ?thesis
    unfolding current_value_and_frame [OF 1 2 3]
    by (simp add: INa_Rsg_init_def negative_seed_def upt_rec)
qed

subsection \<open>The pre-integration hook\<close>

lemma remainder_negative_seed: "remainder negative_seed = Inr [13, -5]"
  by (simp add: remainder_def negative_seed_def bc_chk_def compat_def bc_def)

lemma normalize_negative_seed:
  "normalize_states (map Cell (cells negative_seed) @ [Plain [13, -5]]) =
     Inr (map Cell (replicate 12 [0, (1/2) / (6 + eps)]) @ [Plain [13, -5]])"
proof -
  let ?es = "map Cell (cells negative_seed) @ [Plain [13, -5]]"
  have sh: "same_shape 2 ?es"
    by (simp add: same_shape_def cells_def negative_seed_def)
  define T where "T = clamped_total ?es"
  have T0: "T 0 = 13" and T1: "T (Suc 0) = 6"
    by (simp_all add: T_def clamped_total_def cells_def negative_seed_def)
  have "map (\<lambda>e. divide_entry T (clamp_entry e)) ?es =
      map Cell (replicate 12 [0, (1/2) / (6 + eps)]) @ [Plain [13, -5]]"
    by (simp add: cells_def negative_seed_def T0 T1 upt_rec numeral_eq_Suc)
  then show ?thesis
    unfolding normalize_states_same_shape [OF sh] T_def by simp
qed

text \<open>
  Claim C2 on the seeded state above.  \<open>pre_integral\<close> stores the remainder
  \<open>I6 = 1 - sum\<close> of the values it was called with and passes it to the normalizer as a
  plain array, so after the call \<open>I6\<close> still holds \<open>13\<close> and \<open>-5\<close> while the cells were
  clamped and divided: the cells and the stored remainder add up to \<open>13\<close> in the first
  compartment and to less than \<open>-4\<close> in the second one, not to \<open>1\<close>.
\<close>

theorem pre_integral_negative_seed:
  "\<exists>st'. pre_integral negative_seed = Inr st' \<and> I6 st' = [13, -5] \<and>
     occupancy_sum st' 0 = 13 \<and> occupancy_sum st' 1 < -4"
proof -
  define x where "x = (1/2) / (6 + eps)"
  have x: "12 * x < 1"
    by (simp add: x_def eps_def)
  have "pre_integral negative_seed =
      Inr (negative_seed\<lparr>C1 := [0, x], C2 := [0, x], C3 := [0, x], C4 := [0, x],
             C5 := [0, x], I1 := [0, x], I2 := [0, x], I3 := [0, x], I4 := [0, x],
             I5 := [0, x], O_st := [0, x], B := [0, x], I6 := [13, -5]\<rparr>)"
    unfolding x_def
    by (simp add: pre_integral_def remainder_negative_seed normalize_negative_seed
        numeral_eq_Suc)
  then show ?thesis
    using x by (simp add: occupancy_sum_def cells_def)
qed

subsection \<open>Diagonally dominant systems\<close>

lemma ex_max_index:
  fixes f :: "nat \<Rightarrow> real"
  shows "0 < n \<Longrightarrow> \<exists>k<n. \<forall>j<n. f j \<le> f k"
proof (induction n)
  case 0
  then show ?case by simp
next
  case (Suc n)
  show ?case
  proof (cases "n = 0")
    case True
    then show ?thesis by auto
  next
    case False
    then obtain k where k: "k < n" "\<forall>j<n. f j \<le> f k" using Suc.IH by auto
    show ?thesis
    proof (cases "f n \<le> f k")
      case True
      then have "\<forall>j<Suc n. f j \<le> f k" using k by (auto simp: less_Suc_eq)
      then show ?thesis using k(1) by (meson less_SucI)
    next
      case False
      then have "\<forall>j<Suc n. f j \<le> f n" using k by (fastforce simp: less_Suc_eq)
      then show ?thesis by blast
    qed
  qed
qed

lemma dot_sum:
  assumes "length xs = n" and "length ys = n"
  shows "dot xs ys = (\<Sum>j<n. xs ! j * ys ! j)"
proof -
  have "dot xs ys = (\<Sum>j = 0..<length (map2 (*) xs ys). map2 (*) xs ys ! j)"
    unfolding dot_def by (rule sum_list_sum_nth)
  also have "\<dots> = (\<Sum>j = 0..<n. xs ! j * ys ! j)"
    using assms by (intro sum.cong) simp_all
  finally show ?thesis by (simp add: atLeast0LessThan)
qed

lemma dd_nonsingular:
  assumes A: "length A = n" "\<forall>r \<in> set A. length r = n"
    and dd: "\<forall>i<n. (\<Sum>j\<leftarrow>[0..<n]. if j = i then 0 else \<bar>A ! i ! j\<bar>) < \<bar>A ! i ! i\<bar>"
  shows "nonsingular n A"
  unfolding nonsingular_def
proof (intro allI impI)
  fix z
  assume z: "length z = n \<and> (\<forall>r \<in> set A. dot r z = 0)"
  show "z = replicate n 0"
  proof (rule ccontr)
    assume ne: "z \<noteq> replicate n 0"
    have "\<exists>i<n. z ! i \<noteq> 0"
    proof (rule ccontr)
      assume "\<not> (\<exists>i<n. z ! i \<noteq> 0)"
      then have "z = replicate n 0"
        using z by (intro nth_equalityI) simp_all
      then show False using ne by simp
    qed
    then obtain i0 where i0: "i0 < n" "z ! i0 \<noteq> 0" by blast
    then have "0 < n" by simp
    from ex_max_index [OF this, of "\<lambda>j. \<bar>z ! j\<bar>"]
    obtain k where k: "k < n" "\<forall>j<n. \<bar>z ! j\<bar> \<le> \<bar>z ! k\<bar>" by blast
    have zk: "0 < \<bar>z ! k\<bar>"
    proof -
      have "0 < \<bar>z ! i0\<bar>" using i0(2) by simp
      moreover have "\<bar>z ! i0\<bar> \<le> \<bar>z ! k\<bar>" using k(2) i0(1) by simp
      ultimately show ?thesis by linarith
    qed
    let ?r = "A ! k"
    have rk: "?r \<in> set A" "length ?r = n" using A k(1) by simp_all
    have "(\<Sum>j<n. ?r ! j * z ! j) = 0"
      using z rk dot_sum [of ?r n z] by simp
    then have "?r ! k * z ! k + (\<Sum>j\<in>{..<n} - {k}. ?r ! j * z ! j) = 0"
      using k(1) by (simp add: sum.remove [of "{..<n}" k])
    then have "\<bar>?r ! k\<bar> * \<bar>z ! k\<bar> = \<bar>\<Sum>j\<in>{..<n} - {k}. ?r ! j * z ! j\<bar>"
      by (metis abs_minus_cancel abs_mult add.commute add_eq_0_iff)
    also have "\<dots> \<le> (\<Sum>j\<in>{..<n} - {k}. \<bar>?r ! j * z ! j\<bar>)"
      by (rule sum_abs)
    also have "\<dots> \<le> (\<Sum>j\<in>{..<n} - {k}. \<bar>?r ! j\<bar> * \<bar>z ! k\<bar>)"
    proof (rule sum_mono)
      fix j assume "j \<in> {..<n} - {k}"
      then have "\<bar>z ! j\<bar> \<le> \<bar>z ! k\<bar>" using k(2) by simp
      then show "\<bar>?r ! j * z ! j\<bar> \<le> \<bar>?r ! j\<bar> * \<bar>z ! k\<bar>"
        by (simp add: abs_mult mult_left_mono)
    qed
    also have "\<dots> = (\<Sum>j\<in>{..<n} - {k}. \<bar>?r ! j\<bar>) * \<bar>z ! k\<bar>"
      by (simp add: sum_distrib_right)
    finally have le: "\<bar>?r ! k\<bar> * \<bar>z ! k\<bar> \<le> (\<Sum>j\<in>{..<n} - {k}. \<bar>?r ! j\<bar>) * \<bar>z ! k\<bar>" .
    have "(\<Sum>j\<leftarrow>[0..<n]. if j = k then 0 else \<bar>?r ! j\<bar>) =
        (\<Sum>j\<in>{..<n}. if j = k then 0 else \<bar>?r ! j\<bar>)"
      by (simp add: interv_sum_list_conv_sum_set_nat atLeast0LessThan)
    also have "\<dots> = (\<Sum>j\<in>{..<n} - {k}. \<bar>?r ! j\<bar>)"
      using k(1) by (simp add: sum.remove [of "{..<n}" k])
    finally have e: "(\<Sum>j\<leftarrow>[0..<n]. if j = k then 0 else \<bar>?r ! j\<bar>) =
        (\<Sum>j\<in>{..<n} - {k}. \<bar>?r ! j\<bar>)" .
    have "(\<Sum>j\<leftarrow>[0..<n]. if j = k then 0 else \<bar>?r ! j\<bar>) < \<bar>?r ! k\<bar>"
      using dd k(1) by blast
    then have "(\<Sum>j\<in>{..<n} - {k}. \<bar>?r ! j\<bar>) < \<bar>?r ! k\<bar>"
      unfolding e .
    then have "(\<Sum>j\<in>{..<n} - {k}. \<bar>?r ! j\<bar>) * \<bar>z ! k\<bar> < \<bar>?r ! k\<bar> * \<bar>z ! k\<bar>"
      using zk by simp
    then show False using le by simp
  qed
qed

subsection \<open>The Jacobian of the kinetic scheme, entry by entry\<close>

lemma seed_tab:
  "seed (map x [0..<12]) j = map (\<lambda>i. Dual (x i) (if i = j then 1 else 0)) [0..<12]"
  by (simp add: seed_def)

lemma jacfwd_explicit_tab:
  assumes "f01 p [v] = [F01]" "f02 p [v] = [F02]" "f03 p [v] = [F03]" "f04 p [v] = [F04]"
    "f0O p [v] = [F0O]" "fip p [v] = [Fip]" "f11 p [v] = [F11]" "f12 p [v] = [F12]"
    "f13 p [v] = [F13]" "f14 p [v] = [F14]" "f1n p [v] = [F1n]" "fi1 p [v] = [Fi1]"
    "fi2 p [v] = [Fi2]" "fi3 p [v] = [Fi3]" "fi4 p [v] = [Fi4]" "fi5 p [v] = [Fi5]"
    "fin p [v] = [Fin]" "b01 p [v] = [B01]" "b02 p [v] = [B02]" "b03 p [v] = [B03]"
    "b04 p [v] = [B04]" "b0O p [v] = [B0O]" "bip p [v] = [Bip]" "b11 p [v] = [B11]"
    "b12 p [v] = [B12]" "b13 p [v] = [B13]" "b14 p [v] = [B14]" "b1n p [v] = [B1n]"
    "bi1 p [v] = [Bi1]" "bi2 p [v] = [Bi2]" "bi3 p [v] = [Bi3]" "bi4 p [v] = [Bi4]"
    "bi5 p [v] = [Bi5]" "bin p [v] = [Bin]"
  shows "jacfwd (rhs_point p [v]) (map x [0..<12]) =
    [[- Fi1 - F01, B01, 0, 0, 0, Bi1, 0, 0, 0, 0, 0, 0],
     [F01, - B01 - Fi2 - F02, B02, 0, 0, 0, Bi2, 0, 0, 0, 0, 0],
     [0, F02, - B02 - Fi3 - F03, B03, 0, 0, 0, Bi3, 0, 0, 0, 0],
     [0, 0, F03, - B03 - Fi4 - F04, B04, 0, 0, 0, Bi4, 0, 0, 0],
     [0, 0, 0, F04, - B04 - Fi5 - F0O, 0, 0, 0, 0, Bi5, B0O, 0],
     [Fi1, 0, 0, 0, 0, - Bi1 - F11, B11, 0, 0, 0, 0, 0],
     [0, Fi2, 0, 0, 0, F11, - B11 - Bi2 - F12, B12, 0, 0, 0, 0],
     [0, 0, Fi3, 0, 0, 0, F12, - B12 - Bi3 - F13, B13, 0, 0, 0],
     [0, 0, 0, Fi4, 0, 0, 0, F13, - B13 - Bi4 - F14, B14, 0, 0],
     [- B1n, - B1n, - B1n, - B1n, Fi5 - B1n, - B1n, - B1n, - B1n, F14 - B1n,
      - B1n - (B14 + Bi5 + F1n), - B1n, - B1n],
     [- Bin, - Bin, - Bin, - Bin, F0O - Bin, - Bin, - Bin, - Bin, - Bin,
      - Bin, - Bin - (B0O + Fip + Fin), Bip - Bin],
     [0, 0, 0, 0, 0, 0, 0, 0, 0, 0, Fip, - Bip]]"
  unfolding jacfwd_def
  apply (simp add: length_rhs_point seed_tab)
  apply (simp add: upt_12 rhs_point_def rhs_def Let_def assms arr_defs bc_one_one dual_simps
      T_of_def col_def)
  done

lemmas jacfwd_explicit = jacfwd_explicit_tab [where x = "\<lambda>i. s ! i" for s]

text \<open>The default channel at voltage zero.\<close>

lemma root4_pow: "0 \<le> x \<Longrightarrow> (x powr (1 / 4)) ^ 4 = (x::real)"
proof -
  assume x: "0 \<le> x"
  have "(x powr (1 / 4)) ^ 4 = (x powr (1 / 4)) powr 4"
    by simp
  also have "\<dots> = x powr 1" by (subst powr_powr) simp
  finally show ?thesis using x by simp
qed

lemma root4_less:
  assumes "0 \<le> x" and "0 < c" and "x < c ^ 4"
  shows "x powr (1 / 4) < (c::real)"
proof -
  have "x powr (1 / 4) < (c ^ 4) powr (1 / 4)"
    using assms by (intro powr_less_mono2) simp_all
  also have "(c ^ 4) powr (1 / 4) = (c powr 4) powr (1 / 4)"
    using assms(2) by simp
  also have "\<dots> = c"
    using assms(2) by (subst powr_powr) simp
  finally show ?thesis .
qed

lemma default_fields:
  "phi default_channel = 1" "g_max default_channel = 15"
  "Con default_channel = 1 / 200" "Coff default_channel = 1 / 2"
  "Oon default_channel = 3 / 4" "Ooff default_channel = 1 / 200"
  "alpha default_channel = 150" "beta default_channel = 3" "gamma default_channel = 150"
  "delta default_channel = 40" "epsilon default_channel = 7 / 4"
  "zeta default_channel = 3 / 100"
  "x1 default_channel = 20" "x2 default_channel = - 20" "x6 default_channel = - 25"
  "vshifta default_channel = 0" "vshifti default_channel = 0" "vshiftk default_channel = 0"
  by (simp_all add: default_channel_def INa_Rsg_init_def)

lemma default_alfac:
  "0 < alfac default_channel" "alfac default_channel < 7 / 2"
  "alfac default_channel ^ 4 = 150"
proof -
  have a: "alfac default_channel = 150 powr (1 / 4)"
    by (simp add: default_channel_def INa_Rsg_init_def)
  show "0 < alfac default_channel" by (simp add: a)
  show "alfac default_channel < 7 / 2"
    unfolding a by (rule root4_less) (simp_all add: power_divide)
  show "alfac default_channel ^ 4 = 150"
    unfolding a by (rule root4_pow) simp
qed

lemma default_btfac:
  "0 < btfac default_channel" "btfac default_channel < 1 / 3"
  "btfac default_channel ^ 4 = 1 / 100"
proof -
  have b: "btfac default_channel = (1 / 100) powr (1 / 4)"
    by (simp add: default_channel_def INa_Rsg_init_def)
  show "0 < btfac default_channel" by (simp add: b)
  show "btfac default_channel < 1 / 3"
    unfolding b by (rule root4_less) (simp_all add: power_divide)
  show "btfac default_channel ^ 4 = 1 / 100"
    unfolding b by (rule root4_pow) simp
qed

lemma default_rates:
  "f01 default_channel [0] = [600]" "f02 default_channel [0] = [450]"
  "f03 default_channel [0] = [300]" "f04 default_channel [0] = [150]"
  "f0O default_channel [0] = [150]" "fip default_channel [0] = [7 / 4]"
  "f11 default_channel [0] = [600 * alfac default_channel]"
  "f12 default_channel [0] = [450 * alfac default_channel]"
  "f13 default_channel [0] = [300 * alfac default_channel]"
  "f14 default_channel [0] = [150 * alfac default_channel]"
  "f1n default_channel [0] = [150]" "fi1 default_channel [0] = [1 / 200]"
  "fi2 default_channel [0] = [alfac default_channel / 200]"
  "fi3 default_channel [0] = [alfac default_channel ^ 2 / 200]"
  "fi4 default_channel [0] = [alfac default_channel ^ 3 / 200]"
  "fi5 default_channel [0] = [3 / 4]"
  "fin default_channel [0] = [3 / 4]" "b01 default_channel [0] = [3]"
  "b02 default_channel [0] = [6]" "b03 default_channel [0] = [9]"
  "b04 default_channel [0] = [12]" "b0O default_channel [0] = [40]"
  "bip default_channel [0] = [3 / 100]"
  "b11 default_channel [0] = [3 * btfac default_channel]"
  "b12 default_channel [0] = [6 * btfac default_channel]"
  "b13 default_channel [0] = [9 * btfac default_channel]"
  "b14 default_channel [0] = [12 * btfac default_channel]"
  "b1n default_channel [0] = [40]" "bi1 default_channel [0] = [1 / 2]"
  "bi2 default_channel [0] = [btfac default_channel / 2]"
  "bi3 default_channel [0] = [btfac default_channel ^ 2 / 2]"
  "bi4 default_channel [0] = [btfac default_channel ^ 3 / 2]"
  "bi5 default_channel [0] = [1 / 200]"
  "bin default_channel [0] = [1 / 200]"
  by (simp_all add: rate_defs default_fields default_alfac(3) default_btfac(3))

lemma default_jacobian:
  assumes "length s = 12"
  shows "jacfwd (rhs_point default_channel [0]) s =
    [[- (1 / 200) - 600, 3, 0, 0, 0, 1 / 2, 0, 0, 0, 0, 0, 0],
     [600, - 3 - alfac default_channel / 200 - 450, 6, 0, 0, 0,
      btfac default_channel / 2, 0, 0, 0, 0, 0],
     [0, 450, - 6 - alfac default_channel ^ 2 / 200 - 300, 9, 0, 0, 0,
      btfac default_channel ^ 2 / 2, 0, 0, 0, 0],
     [0, 0, 300, - 9 - alfac default_channel ^ 3 / 200 - 150, 12, 0, 0, 0,
      btfac default_channel ^ 3 / 2, 0, 0, 0],
     [0, 0, 0, 150, - 12 - 3 / 4 - 150, 0, 0, 0, 0, 1 / 200, 40, 0],
     [1 / 200, 0, 0, 0, 0, - (1 / 2) - 600 * alfac default_channel,
      3 * btfac default_channel, 0, 0, 0, 0, 0],
     [0, alfac default_channel / 200, 0, 0, 0, 600 * alfac default_channel,
      - (3 * btfac default_channel) - btfac default_channel / 2
        - 450 * alfac default_channel,
      6 * btfac default_channel, 0, 0, 0, 0],
     [0, 0, alfac default_channel ^ 2 / 200, 0, 0, 0, 450 * alfac default_channel,
      - (6 * btfac default_channel) - btfac default_channel ^ 2 / 2
        - 300 * alfac default_channel,
      9 * btfac default_channel, 0, 0, 0],
     [0, 0, 0, alfac default_channel ^ 3 / 200, 0, 0, 0, 300 * alfac default_channel,
      - (9 * btfac default_channel) - btfac default_channel ^ 3 / 2
        - 150 * alfac default_channel,
      12 * btfac default_channel, 0, 0],
     [- 40, - 40, - 40, - 40, 3 / 4 - 40, - 40, - 40, - 40,
      150 * alfac default_channel - 40,
      - 40 - (12 * btfac default_channel + 1 / 200 + 150), - 40, - 40],
     [- (1 / 200), - (1 / 200), - (1 / 200), - (1 / 200), 150 - 1 / 200, - (1 / 200),
      - (1 / 200), - (1 / 200), - (1 / 200), - (1 / 200),
      - (1 / 200) - (40 + 7 / 4 + 3 / 4), 3 / 100 - 1 / 200],
     [0, 0, 0, 0, 0, 0, 0, 0, 0, 0, 7 / 4, - (3 / 100)]]"
  using jacfwd_explicit [OF default_rates, of s] tab_12 [OF assms] by simp

lemma all_less_12:
  "(\<forall>i<12. P i) \<longleftrightarrow>
   P 0 \<and> P 1 \<and> P 2 \<and> P 3 \<and> P 4 \<and> P 5 \<and> P 6 \<and> P 7 \<and> P 8 \<and> P 9 \<and> P 10 \<and> P (11::nat)"
  by (auto simp: eval_nat_numeral All_less_Suc)

lemma default_step_matrix_nonsingular:
  assumes "length s = 12"
  shows "nonsingular 12
     (mat_sub (eye 12) (mat_scale (1 / 1000) (jacfwd (rhs_point default_channel [0]) s)))"
proof -
  define a where "a = alfac default_channel"
  define b where "b = btfac default_channel"
  have a: "0 < a" "a < 7 / 2" and b: "0 < b" "b < 1 / 3"
    using default_alfac default_btfac by (simp_all add: a_def b_def)
  have a2: "0 \<le> a ^ 2" "0 \<le> a ^ 3" using a by simp_all
  have "a ^ 2 < (7 / 2) ^ 2" "a ^ 3 < (7 / 2) ^ 3"
    using a by (simp_all add: power_strict_mono)
  then have a3: "a ^ 2 < 49 / 4" "a ^ 3 < 343 / 8"
    by (simp_all add: power_divide)
  have b2: "0 \<le> b ^ 2" "b ^ 2 < 1" "0 \<le> b ^ 3" "b ^ 3 < 1"
    using b by (simp_all add: power_less_one_iff)
  have d7: "1 - (- (6 * b) - b\<^sup>2 / 2 - 300 * a) / 1000
      = 1 + 6 * b / 1000 + b\<^sup>2 / 2000 + 300 * a / 1000"
    by (simp add: field_simps)
  have d8: "1 - (- (9 * b) - b ^ 3 / 2 - 150 * a) / 1000
      = 1 + 9 * b / 1000 + b ^ 3 / 2000 + 150 * a / 1000"
    by (simp add: field_simps)
  have d9: "1 - (- (38001 / 200) - 12 * b) / 1000 = 1 + 38001 / 200000 + 12 * b / 1000"
    by (simp add: field_simps)
  have "\<bar>150 * a - 40\<bar> \<le> 485" using a by linarith
  then have q: "\<bar>150 * a - 40\<bar> / 1000 \<le> 485 / 1000"
    by (rule divide_right_mono) simp
  let ?L = "mat_sub (eye 12) (mat_scale (1 / 1000) (jacfwd (rhs_point default_channel [0]) s))"
  have L: "?L =
      [[320001 / 200000, - (3 / 1000), 0, 0, 0, - (1 / 2000), 0, 0, 0, 0, 0, 0],
       [- (3 / 5), 1 - (- 453 - a / 200) / 1000, - (3 / 500), 0, 0, 0, - (b / 2000), 0, 0, 0, 0, 0],
       [0, - (9 / 20), 1 - (- 306 - a\<^sup>2 / 200) / 1000, - (9 / 1000), 0, 0, 0, - (b\<^sup>2 / 2000), 0, 0, 0, 0],
       [0, 0, - (3 / 10), 1 - (- 159 - a ^ 3 / 200) / 1000, - (3 / 250), 0, 0, 0, - (b ^ 3 / 2000), 0, 0, 0],
       [0, 0, 0, - (3 / 20), 4651 / 4000, 0, 0, 0, 0, - (1 / 200000), - (1 / 25), 0],
       [- (1 / 200000), 0, 0, 0, 0, 1 - (- (1 / 2) - 600 * a) / 1000, - (3 * b / 1000), 0, 0, 0, 0, 0],
       [0, - (a / 200000), 0, 0, 0, - (3 * a / 5), 1 - (- (7 * b / 2) - 450 * a) / 1000, - (3 * b / 500), 0, 0, 0, 0],
       [0, 0, - (a\<^sup>2 / 200000), 0, 0, 0, - (9 * a / 20), 1 - (- (6 * b) - b\<^sup>2 / 2 - 300 * a) / 1000, - (9 * b / 1000), 0, 0, 0],
       [0, 0, 0, - (a ^ 3 / 200000), 0, 0, 0, - (3 * a / 10), 1 - (- (9 * b) - b ^ 3 / 2 - 150 * a) / 1000, - (3 * b / 250), 0, 0],
       [1 / 25, 1 / 25, 1 / 25, 1 / 25, 157 / 4000, 1 / 25, 1 / 25, 1 / 25, - ((150 * a - 40) / 1000), 1 - (- (38001 / 200) - 12 * b) / 1000, 1 / 25, 1 / 25],
       [1 / 200000, 1 / 200000, 1 / 200000, 1 / 200000, - (29999 / 200000), 1 / 200000, 1 / 200000, 1 / 200000, 1 / 200000, 1 / 200000, 208501 / 200000, - (1 / 40000)],
       [0, 0, 0, 0, 0, 0, 0, 0, 0, 0, - (7 / 4000), 100003 / 100000]]"
    unfolding default_jacobian [OF assms] a_def [symmetric] b_def [symmetric]
    by (simp add: eye_def upt_12 mat_sub_def mat_scale_def vec_sub_def vec_scale_def)
  show ?thesis
  proof (rule dd_nonsingular)
    show "length ?L = 12" unfolding L by simp
    show "\<forall>r \<in> set ?L. length r = 12" unfolding L by simp
    show "\<forall>i<12. (\<Sum>j\<leftarrow>[0..<12]. if j = i then 0 else \<bar>?L ! i ! j\<bar>) < \<bar>?L ! i ! i\<bar>"
      unfolding L all_less_12 upt_12
      using a b a3 b2
      apply simp
      apply (insert a2 b2(1,3) q)
      apply (intro conjI)
             apply (argo | (subst d7, linarith) | (subst d8, linarith) | (subst d9, linarith))+
      done
  qed
qed

subsection \<open>When the step returns\<close>

lemma update_state_returns:
  assumes sh: "shaped M st" and M: "2 \<le> M" and V: "length V = M"
    and ns: "\<And>m. m < M \<Longrightarrow> nonsingular 12
        (mat_sub (eye 12) (mat_scale (dt / 2) (jacfwd (rhs_point p [V ! 0]) (col m (cells st)))))"
  shows "\<exists>st'. update_state p V dt st = Written st'"
proof -
  let ?S = "cells st"
  let ?sol = "S_new p V (dt / 2) M ?S"
  have Vne: "V \<noteq> []" using V M by auto
  have some: "x \<noteq> None" if "x \<in> set ?sol" for x
  proof -
    from that obtain m where "m < length ?sol" and x: "x = ?sol ! m"
      unfolding in_set_conv_nth by blast
    then have m: "m < M" by (simp add: length_S_new)
    have J: "jacfwd (rhs_point p V) (col m ?S) = jacfwd (rhs_point p [V ! 0]) (col m ?S)"
      by (rule jacfwd_V0 [OF Vne]) (simp add: length_col length_cells)
    have l: "lhs p V (dt / 2) M ?S ! m =
        mat_sub (eye 12) (mat_scale (dt / 2) (jacfwd (rhs_point p [V ! 0]) (col m ?S)))"
      unfolding lhs_nth [OF m] J by (simp add: length_cells)
    note sq = lhs_square [OF m length_cells, of p V "dt / 2"]
    have "nonsingular 12 (lhs p V (dt / 2) M ?S ! m)"
      unfolding l by (rule ns [OF m])
    then have "\<exists>y. solve (lhs p V (dt / 2) M ?S ! m) (rhs_val p V (dt / 2) M ?S ! m) = Some y"
      by (rule solve_complete [OF sq length_rhs_val [OF m length_cells]])
    then show ?thesis unfolding x S_new_nth [OF m] by auto
  qed
  have "None \<notin> set ?sol"
  proof
    assume "None \<in> set ?sol"
    from some [OF this] show False by simp
  qed
  then show ?thesis unfolding update_state_shaped [OF sh M V] by simp
qed

subsection \<open>The equations of a step, row by row\<close>

lemma dot_unit:
  assumes "i < n" and "length x = n"
  shows "dot (map (\<lambda>j. if i = j then 1 else 0) [0..<n]) x = x ! i"
proof -
  have "dot (map (\<lambda>j. if i = j then 1 else 0) [0..<n]) x =
      (\<Sum>k = 0..<n. (if i = k then 1 else 0) * x ! k)"
    unfolding dot_def using assms(2)
    by (simp add: sum_list_sum_nth atLeast0LessThan)
  also have "\<dots> = (\<Sum>k \<in> {0..<n}. if k = i then x ! k else 0)"
    by (rule sum.cong) auto
  also have "\<dots> = x ! i" using assms(1) by simp
  finally show ?thesis .
qed

lemma matvec_step_nth:
  assumes i: "i < n" and A: "length A = n" "\<forall>r \<in> set A. length r = n" and x: "length x = n"
  shows "matvec (mat_sub (eye n) (mat_scale h A)) x ! i = x ! i - h * dot (A ! i) x"
proof -
  have r: "length (A ! i) = n" using i A by simp
  have "mat_sub (eye n) (mat_scale h A) ! i =
      vec_sub (map (\<lambda>j. if i = j then 1 else 0) [0..<n]) (vec_scale h (A ! i))"
    using i A(1) by (simp add: mat_sub_def mat_scale_def eye_def)
  then have "matvec (mat_sub (eye n) (mat_scale h A)) x ! i =
      dot (vec_sub (map (\<lambda>j. if i = j then 1 else 0) [0..<n]) (vec_scale h (A ! i))) x"
    using i A(1) by (simp add: matvec_def mat_sub_def mat_scale_def eye_def)
  also have "\<dots> = dot (map (\<lambda>j. if i = j then 1 else 0) [0..<n]) x - h * dot (A ! i) x"
    by (rule dot_sub_scale) (simp add: r)
  finally show ?thesis unfolding dot_unit [OF i x] .
qed

lemma backward_euler_eq_nth:
  assumes e: "backward_euler_eq p v h s s'" and s: "length s = 12" and s': "length s' = 12"
    and i: "i < 12"
  shows "s' ! i - h * dot (jacfwd (rhs_point p [v]) s ! i) s' =
         s ! i + h * (rhs_point p [v] s ! i - dot (jacfwd (rhs_point p [v]) s ! i) s)"
proof -
  let ?J = "jacfwd (rhs_point p [v]) s"
  have J: "length ?J = 12" "\<forall>r \<in> set ?J. length r = 12"
    using jacfwd_shape [of p "[v]" s] s by simp_all
  have "matvec (mat_sub (eye 12) (mat_scale h ?J)) s' ! i =
      vec_add s (vec_scale h (vec_sub (rhs_point p [v] s) (matvec ?J s))) ! i"
    using e unfolding backward_euler_eq_def Let_def by simp
  moreover have "vec_add s (vec_scale h (vec_sub (rhs_point p [v] s) (matvec ?J s))) ! i =
      s ! i + h * (rhs_point p [v] s ! i - dot (?J ! i) s)"
    using i s J(1) by (simp add: vec_add_def vec_scale_def vec_sub_def matvec_def length_rhs_point)
  ultimately show ?thesis
    unfolding matvec_step_nth [OF i J s'] by simp
qed

text \<open>
  A next state that satisfies the equation for a step \<open>h\<close> and for the step \<open>2 h\<close> is
  the current state, and the right-hand side vanishes there.
\<close>

lemma two_steps_stationary:
  assumes e1: "backward_euler_eq p v h s s'" and e2: "backward_euler_eq p v (2 * h) s s'"
    and s: "length s = 12" and s': "length s' = 12" and h: "h \<noteq> 0" and i: "i < 12"
  shows "rhs_point p [v] s ! i = 0"
proof -
  let ?J = "jacfwd (rhs_point p [v]) s"
  have eq: "s' ! j = s ! j" if j: "j < 12" for j
  proof -
    define d where "d = h * dot (?J ! j) s'"
    define c where "c = h * (rhs_point p [v] s ! j - dot (?J ! j) s)"
    have "s' ! j - d = s ! j + c"
      using backward_euler_eq_nth [OF e1 s s' j] by (simp add: d_def c_def)
    moreover have "s' ! j - 2 * d = s ! j + 2 * c"
      using backward_euler_eq_nth [OF e2 s s' j] by (simp add: d_def c_def)
    ultimately show ?thesis by linarith
  qed
  have ss: "s' = s"
    by (rule nth_equalityI) (simp_all add: s s' eq)
  define e where "e = dot (?J ! i) s"
  have "s ! i - h * e = s ! i + h * (rhs_point p [v] s ! i - e)"
    using backward_euler_eq_nth [OF e1 s s' i] unfolding ss e_def .
  then have "h * rhs_point p [v] s ! i = 0"
    by (simp add: algebra_simps)
  then show ?thesis using h by simp
qed

subsection \<open>The default channel at rest\<close>

lemma shaped_initial_state: "shaped 2 initial_state"
  by (simp add: shaped_def cells_def initial_state_def)

lemma col_initial_state:
  "col 0 (cells initial_state) = [0, 0, 0, 0, 0, 0, 0, 0, 0, 0, 0, 0]"
  "col 1 (cells initial_state) = [0, 0, 0, 0, 0, 0, 0, 0, 0, 0, 0, 0]"
  by (simp_all add: col_def cells_def initial_state_def)

lemma rhs_point_default_rest:
  "rhs_point default_channel [0] [0, 0, 0, 0, 0, 0, 0, 0, 0, 0, 0, 0 :: real] =
     [0, 0, 0, 0, 0, 0, 0, 0, 0, 40, 1 / 200, 0]"
  unfolding rhs_point_def
  by (simp add: rhs_def Let_def default_rates arr_defs bc_one_one)

lemma update_state_default_returns:
  "\<exists>st'. update_state default_channel [0, 0] (1 / 500) initial_state = Written st'"
proof (rule update_state_returns [OF shaped_initial_state])
  show "2 \<le> (2::nat)" by simp
  show "length [0, 0 :: real] = 2" by simp
  fix m :: nat
  assume "m < 2"
  have "length (col m (cells initial_state)) = 12"
    by (simp add: length_col length_cells)
  from default_step_matrix_nonsingular [OF this]
  show "nonsingular 12 (mat_sub (eye 12)
      (mat_scale (1 / 500 / 2)
         (jacfwd (rhs_point default_channel [[0, 0] ! 0]) (col m (cells initial_state)))))"
    by simp
qed

subsection \<open>The step as a backward-Euler step\<close>

text \<open>
  Claim C1, amended.  The local step is half the step of the environment, and the
  matrix of every compartment comes from column \<open>0\<close> of the broadcast right-hand side.
  For every compartment whose voltage is that of compartment \<open>0\<close> (compartment \<open>0\<close>
  itself among them), with \<open>A\<close> the Jacobian of the right-hand side at the current state
  and \<open>b = F(S, V) - A S\<close>, the state written back satisfies
  \<open>(I - (dt/2) A) S_next = S + (dt/2) b\<close>.
\<close>

theorem update_state_backward_euler_half_step:
  assumes "update_state p V dt st = Written st'"
    and "length V = length (C1 st)" and "m < length (C1 st)" and "V ! m = V ! 0"
  shows "backward_euler_eq p (V ! m) (dt / 2) (col m (cells st)) (col m (cells st'))"
  unfolding backward_euler_eq_def Let_def
  using update_state_system(2) [OF assms(1,2,3)] assms(4) by simp

theorem update_state_backward_euler_half_step_witness:
  "length [0, 0 :: real] = length (C1 initial_state) \<and> 0 < length (C1 initial_state) \<and>
   [0, 0 :: real] ! 0 = [0, 0] ! 0 \<and>
   (\<exists>st'. update_state default_channel [0, 0] (1 / 500) initial_state = Written st' \<and>
      backward_euler_eq default_channel 0 (1 / 1000)
        (col 0 (cells initial_state)) (col 0 (cells st')))"
proof -
  obtain st' where w: "update_state default_channel [0, 0] (1 / 500) initial_state = Written st'"
    using update_state_default_returns by blast
  have V: "length [0, 0 :: real] = length (C1 initial_state)"
    and m: "0 < length (C1 initial_state)"
    by (simp_all add: initial_state_def)
  have "backward_euler_eq default_channel ([0, 0] ! 0) (1 / 500 / 2)
      (col 0 (cells initial_state)) (col 0 (cells st'))"
    by (rule update_state_backward_euler_half_step [OF w V m]) simp
  then show ?thesis using w V m by simp
qed

text \<open>
  Claim C1 as stated fails.  The default channel with two compartments at rest, voltage
  \<open>0\<close> in both, and the step \<open>dt = 1/500\<close> of the environment: the step returns, and the
  state it writes for compartment \<open>0\<close> does not satisfy
  \<open>(I - dt A) S_next = S + dt b\<close> with the full step \<open>dt\<close>.
\<close>

theorem update_state_full_step_counterexample:
  "\<exists>st'. update_state default_channel [0, 0] (1 / 500) initial_state = Written st' \<and>
     \<not> backward_euler_eq default_channel 0 (1 / 500)
         (col 0 (cells initial_state)) (col 0 (cells st'))"
proof -
  obtain st' where w: "update_state default_channel [0, 0] (1 / 500) initial_state = Written st'"
    using update_state_default_returns by blast
  have V: "length [0, 0 :: real] = length (C1 initial_state)"
    and m: "0 < length (C1 initial_state)"
    by (simp_all add: initial_state_def)
  let ?s = "col 0 (cells initial_state)"
  let ?x = "col 0 (cells st')"
  note sys = update_state_system [OF w V m]
  have half: "backward_euler_eq default_channel 0 (1 / 1000) ?s ?x"
    unfolding backward_euler_eq_def Let_def using sys(2) by simp
  have s: "length ?s = 12" by (simp add: length_col length_cells)
  have "\<not> backward_euler_eq default_channel 0 (1 / 500) ?s ?x"
  proof
    assume "backward_euler_eq default_channel 0 (1 / 500) ?s ?x"
    then have full: "backward_euler_eq default_channel 0 (2 * (1 / 1000)) ?s ?x" by simp
    have "rhs_point default_channel [0] ?s ! 10 = 0"
      by (rule two_steps_stationary [OF half full s sys(1)]) simp_all
    then show False
      unfolding col_initial_state rhs_point_default_rest by simp
  qed
  with w show ?thesis by blast
qed

subsection \<open>A singular compartment matrix\<close>











subsection \<open>The coupling of the compartments\<close>

lemma b_val_nth:
  assumes V: "length V = M" and S: "length S = 12" "\<forall>r \<in> set S. length r = M" and m: "m < M"
  shows "b_val p V M S ! m =
     vec_sub (rhs_point p [V ! m] (col m S))
       (matvec (jacfwd (rhs_point p [V ! 0]) (col m S)) (col m S))"
proof -
  have Vne: "V \<noteq> []" using V m by auto
  have J: "jacfwd (rhs_point p V) (col m S) = jacfwd (rhs_point p [V ! 0]) (col m S)"
    by (rule jacfwd_V0 [OF Vne]) (simp add: length_col S)
  have d: "col m (rhs p V S) = rhs_point p [V ! m] (col m S)"
    unfolding col_def by (rule rhs_col [OF V S m])
  show ?thesis
    using m by (simp add: b_val_def dS_val_def T_of_nth A_all_nth J d)
qed

lemma update_state_Written_shaped:
  assumes w: "update_state p V dt st = Written st'" and V: "length V = length (C1 st)"
  shows "shaped (length (C1 st)) st'"
proof -
  have "cells st' = T_of 12 (map the (S_new p V (dt / 2) (length (C1 st)) (cells st)))"
    by (rule update_state_Written_cells(2) [OF w V])
  then show ?thesis
    by (simp add: shaped_def T_of_def col_def length_S_new)
qed

lemma default_fields_x:
  "x3 default_channel = 10 ^ 12" "x4 default_channel = - (10 ^ 12)"
  "x5 default_channel = 10 ^ 12"
  by (simp_all add: default_channel_def INa_Rsg_init_def)

lemma system_nth:
  assumes e: "matvec (mat_sub (eye 12) (mat_scale h J)) x =
      vec_add s (vec_scale h (vec_sub F (matvec J s)))"
    and J: "length J = 12" "\<forall>r \<in> set J. length r = 12"
    and x: "length x = 12" and s: "length s = 12" and F: "length F = 12" and i: "i < 12"
  shows "x ! i - h * dot (J ! i) x = s ! i + h * (F ! i - dot (J ! i) s)"
proof -
  have "matvec (mat_sub (eye 12) (mat_scale h J)) x ! i =
      vec_add s (vec_scale h (vec_sub F (matvec J s))) ! i"
    using e by simp
  moreover have "vec_add s (vec_scale h (vec_sub F (matvec J s))) ! i =
      s ! i + h * (F ! i - dot (J ! i) s)"
    using i s J(1) F by (simp add: vec_add_def vec_scale_def vec_sub_def matvec_def)
  ultimately show ?thesis
    unfolding matvec_step_nth [OF i J x] by simp
qed

lemma default_rates_20:
  "f01 default_channel [20] = [600 * exp 1]" "f02 default_channel [20] = [450 * exp 1]"
  "f03 default_channel [20] = [300 * exp 1]" "f04 default_channel [20] = [150 * exp 1]"
  "f0O default_channel [20] = [150 * exp (20 / 10 ^ 12)]"
  "fip default_channel [20] = [7 / 4 * exp (20 / 10 ^ 12)]"
  "f11 default_channel [20] = [600 * alfac default_channel * exp 1]"
  "f12 default_channel [20] = [450 * alfac default_channel * exp 1]"
  "f13 default_channel [20] = [300 * alfac default_channel * exp 1]"
  "f14 default_channel [20] = [150 * alfac default_channel * exp 1]"
  "f1n default_channel [20] = [150 * exp (20 / 10 ^ 12)]"
  "fi1 default_channel [20] = [1 / 200]"
  "fi2 default_channel [20] = [alfac default_channel / 200]"
  "fi3 default_channel [20] = [alfac default_channel ^ 2 / 200]"
  "fi4 default_channel [20] = [alfac default_channel ^ 3 / 200]"
  "fi5 default_channel [20] = [3 / 4]"
  "fin default_channel [20] = [3 / 4]" "b01 default_channel [20] = [3 * exp (- 1)]"
  "b02 default_channel [20] = [6 * exp (- 1)]" "b03 default_channel [20] = [9 * exp (- 1)]"
  "b04 default_channel [20] = [12 * exp (- 1)]"
  "b0O default_channel [20] = [40 * exp (- (20 / 10 ^ 12))]"
  "bip default_channel [20] = [3 / 100 * exp (- (4 / 5))]"
  "b11 default_channel [20] = [3 * btfac default_channel * exp (- 1)]"
  "b12 default_channel [20] = [6 * btfac default_channel * exp (- 1)]"
  "b13 default_channel [20] = [9 * btfac default_channel * exp (- 1)]"
  "b14 default_channel [20] = [12 * btfac default_channel * exp (- 1)]"
  "b1n default_channel [20] = [40 * exp (- (20 / 10 ^ 12))]"
  "bi1 default_channel [20] = [1 / 2]"
  "bi2 default_channel [20] = [btfac default_channel / 2]"
  "bi3 default_channel [20] = [btfac default_channel ^ 2 / 2]"
  "bi4 default_channel [20] = [btfac default_channel ^ 3 / 2]"
  "bi5 default_channel [20] = [1 / 200]"
  "bin default_channel [20] = [1 / 200]"
  by (simp_all add: rate_defs default_fields default_fields_x default_alfac(3) default_btfac(3))

lemma default_jacobian_20_rows:
  assumes "length s = 12"
  shows "jacfwd (rhs_point default_channel [20]) s ! 0 =
      [- (1 / 200) - 600 * exp 1, 3 * exp (- 1), 0, 0, 0, 1 / 2, 0, 0, 0, 0, 0, 0]"
    and "jacfwd (rhs_point default_channel [20]) s ! 5 =
      [1 / 200, 0, 0, 0, 0, - (1 / 2) - 600 * alfac default_channel * exp 1,
       3 * btfac default_channel * exp (- 1), 0, 0, 0, 0, 0]"
    and "jacfwd (rhs_point default_channel [20]) s ! 11 =
      [0, 0, 0, 0, 0, 0, 0, 0, 0, 0, 7 / 4 * exp (20 / 10 ^ 12),
       - (3 / 100 * exp (- (4 / 5)))]"
  using jacfwd_explicit [OF default_rates_20, of s] tab_12 [OF assms] by simp_all

lemma rhs_point_default_20_rest:
  "rhs_point default_channel [20] [0, 0, 0, 0, 0, 0, 0, 0, 0, 0, 0, 0 :: real] =
     [0, 0, 0, 0, 0, 0, 0, 0, 0, 40 * exp (- (20 / 10 ^ 12)), 1 / 200, 0]"
  unfolding rhs_point_def
  by (simp add: rhs_def Let_def default_rates_20 arr_defs bc_one_one)

lemma update_state_default_returns_V0:
  assumes "length V = 2" and "V ! 0 = 0"
  shows "\<exists>st'. update_state default_channel V (1 / 500) initial_state = Written st'"
proof (rule update_state_returns [OF shaped_initial_state])
  show "2 \<le> (2::nat)" by simp
  show "length V = 2" by (rule assms(1))
  fix m :: nat
  assume "m < 2"
  have "length (col m (cells initial_state)) = 12"
    by (simp add: length_col length_cells)
  from default_step_matrix_nonsingular [OF this]
  show "nonsingular 12 (mat_sub (eye 12)
      (mat_scale (1 / 500 / 2)
         (jacfwd (rhs_point default_channel [V ! 0]) (col m (cells initial_state)))))"
    by (simp add: assms(2))
qed


lemma list_12:
  assumes "length x = 12"
  shows "x = [x ! 0, x ! 1, x ! 2, x ! 3, x ! 4, x ! 5, x ! 6, x ! 7, x ! 8, x ! 9, x ! 10, x ! 11]"
  using tab_12 [OF assms] by (simp add: upt_12)

lemma rhs_point_default_20_rows:
  "rhs_point default_channel [20] [y0, y1, y2, y3, y4, y5, y6, y7, y8, y9, y10, y11 :: real] ! 0 =
     1 / 2 * y5 + 3 * exp (- 1) * y1 - (1 / 200 + 600 * exp 1) * y0"
  "rhs_point default_channel [20] [y0, y1, y2, y3, y4, y5, y6, y7, y8, y9, y10, y11 :: real] ! 5 =
     1 / 200 * y0 + 3 * btfac default_channel * exp (- 1) * y6 -
     (1 / 2 + 600 * alfac default_channel * exp 1) * y5"
  "rhs_point default_channel [20] [y0, y1, y2, y3, y4, y5, y6, y7, y8, y9, y10, y11 :: real] ! 11 =
     7 / 4 * exp (20 / 10 ^ 12) * y10 - 3 / 100 * exp (- (4 / 5)) * y11"
  unfolding rhs_point_def
  by (simp_all add: rhs_def Let_def default_rates_20 arr_defs bc_one_one algebra_simps)

text \<open>
  The default channel, step \<open>1/1000\<close>, from the rest state \<open>s\<close>.  Let \<open>x\<close> be the vector
  that the step computes for a compartment at voltage \<open>20\<close> when the Jacobian is the
  one at voltage \<open>0\<close>.  Then the Jacobians at the voltages \<open>0\<close> and \<open>20\<close> do not agree on
  \<open>x\<close>: agreement in the rows of \<open>C1\<close>, \<open>I1\<close> and \<open>B\<close> already forces \<open>x = 0\<close>, which
  the row of \<open>O\<close> excludes.
\<close>

lemma coupled_step_rows:
  fixes x :: "real list"
  defines "s \<equiv> [0, 0, 0, 0, 0, 0, 0, 0, 0, 0, 0, 0 :: real]"
  assumes x: "length x = 12"
    and cp: "matvec (mat_sub (eye 12)
               (mat_scale (1 / 1000) (jacfwd (rhs_point default_channel [0]) s))) x =
             vec_add s (vec_scale (1 / 1000)
               (vec_sub (rhs_point default_channel [20] s)
                  (matvec (jacfwd (rhs_point default_channel [0]) s) s)))"
    and d0: "600 * (exp 1 - 1) * x ! 0 = 3 * (exp (- 1) - 1) * x ! 1"
    and d5: "600 * alfac default_channel * (exp 1 - 1) * x ! 5 =
             3 * btfac default_channel * (exp (- 1) - 1) * x ! 6"
    and d11: "7 / 4 * (exp (20 / 10 ^ 12) - 1) * x ! 10 = 3 / 100 * (exp (- (4 / 5)) - 1) * x ! 11"
  shows False
proof -
  define a where "a = alfac default_channel"
  define b where "b = btfac default_channel"
  define E1 where "E1 = exp (1::real)"
  define E2 where "E2 = exp (- 1 :: real)"
  define E6 where "E6 = exp (- (4 / 5) :: real)"
  define Ep where "Ep = exp (20 / 10 ^ 12 :: real)"
  have a: "0 < a" and b: "0 < b"
    using default_alfac(1) default_btfac(1) by (simp_all add: a_def b_def)
  have E1: "1 < E1" and E2: "0 < E2" "E2 < 1" and E6: "0 < E6" "E6 < 1" and Ep: "1 < Ep"
    by (simp_all add: E1_def E2_def E6_def Ep_def)
  have sl: "length s = 12" by (simp add: s_def)
  define y0 where "y0 = x ! 0"
  define y1 where "y1 = x ! 1"
  define y2 where "y2 = x ! 2"
  define y3 where "y3 = x ! 3"
  define y4 where "y4 = x ! 4"
  define y5 where "y5 = x ! 5"
  define y6 where "y6 = x ! 6"
  define y7 where "y7 = x ! 7"
  define y8 where "y8 = x ! 8"
  define y9 where "y9 = x ! 9"
  define y10 where "y10 = x ! 10"
  define y11 where "y11 = x ! 11"
  have xl: "x = [y0, y1, y2, y3, y4, y5, y6, y7, y8, y9, y10, y11]"
    unfolding y0_def y1_def y2_def y3_def y4_def y5_def y6_def y7_def y8_def y9_def
      y10_def y11_def
    by (rule list_12 [OF x])
  let ?J0 = "jacfwd (rhs_point default_channel [0]) s"
  let ?F = "rhs_point default_channel [20] s"
  have F: "?F = [0, 0, 0, 0, 0, 0, 0, 0, 0, 40 * exp (- (20 / 10 ^ 12)), 1 / 200, 0]"
    unfolding s_def by (rule rhs_point_default_20_rest)
  have J0: "length ?J0 = 12" "\<forall>r \<in> set ?J0. length r = 12"
    using jacfwd_shape [of default_channel "[0]" s] sl by simp_all
  have cr: "x ! i - 1 / 1000 * dot (?J0 ! i) x = s ! i + 1 / 1000 * (?F ! i - dot (?J0 ! i) s)"
    if "i < 12" for i
    by (rule system_nth [OF cp J0 x sl length_rhs_point that])
  note J0e = default_jacobian [OF sl, folded a_def b_def]
  have p0: "600 * (E1 - 1) * y0 = 3 * (E2 - 1) * y1"
    using d0 by (simp add: E1_def E2_def y0_def y1_def)
  have p5: "600 * a * (E1 - 1) * y5 = 3 * b * (E2 - 1) * y6"
    using d5 by (simp add: E1_def E2_def a_def b_def y5_def y6_def)
  have p11: "7 / 4 * (Ep - 1) * y10 = 3 / 100 * (E6 - 1) * y11"
    using d11 by (simp add: Ep_def E6_def y10_def y11_def)
  have c11: "y11 - (7 / 4 * y10 - 3 / 100 * y11) / 1000 = 0"
    using cr [of 11] unfolding J0e F by (simp add: xl s_def dot_def)
  have y11: "y11 = 0"
  proof -
    have e: "7 / 4 * y10 = (1000 + 3 / 100) * y11" using c11 by simp
    have "(Ep - 1) * (7 / 4 * y10) = 3 / 100 * (E6 - 1) * y11"
      using p11 by (simp only: mult.assoc mult.left_commute)
    then have "(Ep - 1) * ((1000 + 3 / 100) * y11) = (3 / 100 * (E6 - 1)) * y11"
      unfolding e by (simp only: mult.assoc)
    then have "((Ep - 1) * (1000 + 3 / 100) - 3 / 100 * (E6 - 1)) * y11 = 0"
      by (simp only: left_diff_distrib mult.assoc)
    moreover have "0 < (Ep - 1) * (1000 + 3 / 100) - 3 / 100 * (E6 - 1)"
    proof -
      have "0 < (Ep - 1) * (1000 + 3 / 100)" using Ep by (intro mult_pos_pos) simp_all
      moreover have "3 / 100 * (E6 - 1) < 0" using E6 by simp
      ultimately show ?thesis by linarith
    qed
    ultimately show ?thesis by simp
  qed
  have y10: "y10 = 0" using c11 y11 by simp
  have c0: "y0 - ((- (1 / 200) - 600) * y0 + 3 * y1 + 1 / 2 * y5) / 1000 = 0"
    using cr [of 0] unfolding J0e F by (simp add: xl s_def dot_def)
  have c5: "y5 - (1 / 200 * y0 + (- (1 / 2) - 600 * a) * y5 + 3 * b * y6) / 1000 = 0"
    using cr [of 5] unfolding J0e F by (simp add: xl s_def dot_def)
  define q where "q = 1 - E2"
  have q: "0 < q" "q < 1" using E2 by (simp_all add: q_def)
  define K0 where "K0 = q * (1000 + 600 + 1 / 200) + 600 * (E1 - 1)"
  define K5 where "K5 = q * (1000 + 1 / 2 + 600 * a) + 600 * a * (E1 - 1)"
  have r0: "3 * q * y1 = - (600 * (E1 - 1) * y0)"
    using p0 by (simp add: q_def algebra_simps)
  have r5: "3 * b * q * y6 = - (600 * a * (E1 - 1) * y5)"
    using p5 by (simp add: q_def algebra_simps)
  have "y5 / 2 = (1000 + 600 + 1 / 200) * y0 - 3 * y1" using c0 by simp
  then have "q * (y5 / 2) = q * ((1000 + 600 + 1 / 200) * y0 - 3 * y1)"
    by (rule arg_cong)
  then have "q * (y5 / 2) = q * ((1000 + 600 + 1 / 200) * y0) - 3 * q * y1"
    by (simp only: right_diff_distrib mult.assoc mult.left_commute [of q 3 y1])
  then have k0: "q / 2 * y5 = K0 * y0"
    unfolding r0 K0_def by (simp add: algebra_simps)
  have "y0 / 200 = (1000 + 1 / 2 + 600 * a) * y5 - 3 * b * y6" using c5 by (simp add: algebra_simps)
  then have "q * (y0 / 200) = q * ((1000 + 1 / 2 + 600 * a) * y5 - 3 * b * y6)"
    by (rule arg_cong)
  then have "q * (y0 / 200) = q * ((1000 + 1 / 2 + 600 * a) * y5) - 3 * b * q * y6"
    by (simp add: right_diff_distrib mult.assoc mult.left_commute)
  then have k5: "q / 200 * y0 = K5 * y5"
    unfolding r5 K5_def by (simp add: algebra_simps)
  have K0: "q \<le> K0"
  proof -
    have "q * 1 \<le> q * (1000 + 600 + 1 / 200)" using q(1) by (intro mult_left_mono) simp_all
    moreover have "0 \<le> 600 * (E1 - 1)" using E1 by simp
    ultimately show ?thesis unfolding K0_def by linarith
  qed
  have K5: "q \<le> K5"
  proof -
    have "0 \<le> 600 * a" using a by simp
    then have "q * 1 \<le> q * (1000 + 1 / 2 + 600 * a)" using q(1) by (intro mult_left_mono) simp_all
    moreover have "0 \<le> 600 * a * (E1 - 1)" using E1 a by simp
    ultimately show ?thesis unfolding K5_def by linarith
  qed
  have y0: "y0 = 0"
  proof -
    have "K5 * (K0 * y0) = K5 * (q / 2 * y5)" using k0 by simp
    also have "\<dots> = q / 2 * (K5 * y5)" by simp
    also have "\<dots> = q / 2 * (q / 200 * y0)" using k5 by simp
    finally have "(K5 * K0 - q * q / 400) * y0 = 0" by (simp add: algebra_simps)
    moreover have "q * q / 400 < K5 * K0"
    proof -
      have "q * q \<le> K5 * K0" using K0 K5 q(1) by (intro mult_mono) simp_all
      moreover have "0 < q * q" using q(1) by simp
      ultimately show ?thesis by linarith
    qed
    ultimately show ?thesis by simp
  qed
  have y5: "y5 = 0"
  proof -
    have "K5 * y5 = 0" using k5 y0 by simp
    moreover have "0 < K5" using K5 q(1) by linarith
    ultimately show ?thesis by simp
  qed
  have y1: "y1 = 0" using r0 y0 q(1) by simp
  have y6: "y6 = 0" using r5 y5 q(1) b by simp
  have y2: "y2 = 0"
    using cr [of 1] unfolding J0e F by (simp add: xl s_def dot_def y0 y1 y6)
  have y7: "y7 = 0"
    using cr [of 6] b unfolding J0e F by (simp add: xl s_def dot_def y1 y5 y6)
  have y3: "y3 = 0"
    using cr [of 2] unfolding J0e F by (simp add: xl s_def dot_def y1 y2 y7)
  have y8: "y8 = 0"
    using cr [of 7] b unfolding J0e F by (simp add: xl s_def dot_def y2 y6 y7)
  have y4: "y4 = 0"
    using cr [of 3] unfolding J0e F by (simp add: xl s_def dot_def y2 y3 y8)
  have y9: "y9 = 0"
    using cr [of 8] b unfolding J0e F by (simp add: xl s_def dot_def y3 y7 y8)
  show False
    using cr [of 10] unfolding J0e F
    by (simp add: xl s_def dot_def y0 y1 y2 y3 y4 y5 y6 y7 y8 y9 y10 y11)
qed

lemma batch_step_system:
  assumes w: "update_state default_channel [0, 20] (1 / 500) initial_state = Written st'"
  shows "length (col 1 (cells st')) = 12"
    and "matvec (mat_sub (eye 12) (mat_scale (1 / 1000)
            (jacfwd (rhs_point default_channel [0]) [0, 0, 0, 0, 0, 0, 0, 0, 0, 0, 0, 0])))
           (col 1 (cells st')) =
         vec_add [0, 0, 0, 0, 0, 0, 0, 0, 0, 0, 0, 0]
           (vec_scale (1 / 1000)
              (vec_sub (rhs_point default_channel [20] [0, 0, 0, 0, 0, 0, 0, 0, 0, 0, 0, 0])
                 (matvec (jacfwd (rhs_point default_channel [0])
                            [0, 0, 0, 0, 0, 0, 0, 0, 0, 0, 0, 0])
                    [0, 0, 0, 0, 0, 0, 0, 0, 0, 0, 0, 0])))"
proof -
  have V: "length [0, 20 :: real] = length (C1 initial_state)"
    and m: "1 < length (C1 initial_state)"
    by (simp_all add: initial_state_def)
  note sys = update_state_system [OF w V m]
  show "length (col 1 (cells st')) = 12" by (rule sys(1))
  show "matvec (mat_sub (eye 12) (mat_scale (1 / 1000)
            (jacfwd (rhs_point default_channel [0]) [0, 0, 0, 0, 0, 0, 0, 0, 0, 0, 0, 0])))
           (col 1 (cells st')) =
         vec_add [0, 0, 0, 0, 0, 0, 0, 0, 0, 0, 0, 0]
           (vec_scale (1 / 1000)
              (vec_sub (rhs_point default_channel [20] [0, 0, 0, 0, 0, 0, 0, 0, 0, 0, 0, 0])
                 (matvec (jacfwd (rhs_point default_channel [0])
                            [0, 0, 0, 0, 0, 0, 0, 0, 0, 0, 0, 0])
                    [0, 0, 0, 0, 0, 0, 0, 0, 0, 0, 0, 0])))"
    using sys(2) unfolding col_initial_state by simp
qed

lemma backward_euler_rows_agree:
  fixes x :: "real list"
  defines "s \<equiv> [0, 0, 0, 0, 0, 0, 0, 0, 0, 0, 0, 0 :: real]"
  assumes x: "length x = 12"
    and cp: "matvec (mat_sub (eye 12)
               (mat_scale (1 / 1000) (jacfwd (rhs_point default_channel [0]) s))) x =
             vec_add s (vec_scale (1 / 1000)
               (vec_sub (rhs_point default_channel [20] s)
                  (matvec (jacfwd (rhs_point default_channel [0]) s) s)))"
    and be: "backward_euler_eq default_channel 20 (1 / 1000) s x"
  shows "600 * (exp 1 - 1) * x ! 0 = 3 * (exp (- 1) - 1) * x ! 1"
    and "600 * alfac default_channel * (exp 1 - 1) * x ! 5 =
         3 * btfac default_channel * (exp (- 1) - 1) * x ! 6"
    and "7 / 4 * (exp (20 / 10 ^ 12) - 1) * x ! 10 = 3 / 100 * (exp (- (4 / 5)) - 1) * x ! 11"
proof -
  have sl: "length s = 12" by (simp add: s_def)
  let ?J0 = "jacfwd (rhs_point default_channel [0]) s"
  let ?J20 = "jacfwd (rhs_point default_channel [20]) s"
  let ?F = "rhs_point default_channel [20] s"
  have J0: "length ?J0 = 12" "\<forall>r \<in> set ?J0. length r = 12"
    using jacfwd_shape [of default_channel "[0]" s] sl by simp_all
  have cr: "x ! i - 1 / 1000 * dot (?J0 ! i) x = s ! i + 1 / 1000 * (?F ! i - dot (?J0 ! i) s)"
    if "i < 12" for i
    by (rule system_nth [OF cp J0 x sl length_rhs_point that])
  have ir: "x ! i - 1 / 1000 * dot (?J20 ! i) x = s ! i + 1 / 1000 * (?F ! i - dot (?J20 ! i) s)"
    if "i < 12" for i
    by (rule backward_euler_eq_nth [OF be sl x that])
  have z: "dot r s = 0" for r
    unfolding s_def using dot_zeros [of r 12] by (simp add: eval_nat_numeral)
  have ag: "dot (?J0 ! i) x = dot (?J20 ! i) x" if "i < 12" for i
    using cr [OF that] ir [OF that] by (simp add: z)
  define y0 where "y0 = x ! 0"
  define y1 where "y1 = x ! 1"
  define y2 where "y2 = x ! 2"
  define y3 where "y3 = x ! 3"
  define y4 where "y4 = x ! 4"
  define y5 where "y5 = x ! 5"
  define y6 where "y6 = x ! 6"
  define y7 where "y7 = x ! 7"
  define y8 where "y8 = x ! 8"
  define y9 where "y9 = x ! 9"
  define y10 where "y10 = x ! 10"
  define y11 where "y11 = x ! 11"
  have xl: "x = [y0, y1, y2, y3, y4, y5, y6, y7, y8, y9, y10, y11]"
    unfolding y0_def y1_def y2_def y3_def y4_def y5_def y6_def y7_def y8_def y9_def
      y10_def y11_def
    by (rule list_12 [OF x])
  note J0e = default_jacobian [OF sl]
  note J20e = default_jacobian_20_rows [OF sl]
  have a0: "dot (?J0 ! 0) x = dot (?J20 ! 0) x" by (rule ag) simp
  have a5: "dot (?J0 ! 5) x = dot (?J20 ! 5) x" by (rule ag) simp
  have a11: "dot (?J0 ! 11) x = dot (?J20 ! 11) x" by (rule ag) simp
  have "600 * (exp 1 - 1) * y0 = 3 * (exp (- 1) - 1) * y1"
    using a0 unfolding J0e J20e by (simp add: xl dot_def algebra_simps)
  then show "600 * (exp 1 - 1) * x ! 0 = 3 * (exp (- 1) - 1) * x ! 1"
    by (simp add: y0_def y1_def)
  have "600 * alfac default_channel * (exp 1 - 1) * y5 =
      3 * btfac default_channel * (exp (- 1) - 1) * y6"
    using a5 unfolding J0e J20e by (simp add: xl dot_def algebra_simps)
  then show "600 * alfac default_channel * (exp 1 - 1) * x ! 5 =
      3 * btfac default_channel * (exp (- 1) - 1) * x ! 6"
    by (simp add: y5_def y6_def)
  have "7 / 4 * (exp (20 / 10 ^ 12) - 1) * y10 = 3 / 100 * (exp (- (4 / 5)) - 1) * y11"
    using a11 unfolding J0e J20e by (simp add: xl dot_def algebra_simps)
  then show "7 / 4 * (exp (20 / 10 ^ 12) - 1) * x ! 10 = 3 / 100 * (exp (- (4 / 5)) - 1) * x ! 11"
    by (simp add: y10_def y11_def)
qed


lemma b_rows_agree:
  fixes x :: "real list"
  defines "s \<equiv> [0, 0, 0, 0, 0, 0, 0, 0, 0, 0, 0, 0 :: real]"
  assumes x: "length x = 12"
    and eq: "vec_sub (rhs_point default_channel [20] x)
               (matvec (jacfwd (rhs_point default_channel [0]) x) x) =
             vec_sub (rhs_point default_channel [20] s)
               (matvec (jacfwd (rhs_point default_channel [0]) s) s)"
  shows "600 * (exp 1 - 1) * x ! 0 = 3 * (exp (- 1) - 1) * x ! 1"
    and "600 * alfac default_channel * (exp 1 - 1) * x ! 5 =
         3 * btfac default_channel * (exp (- 1) - 1) * x ! 6"
    and "7 / 4 * (exp (20 / 10 ^ 12) - 1) * x ! 10 = 3 / 100 * (exp (- (4 / 5)) - 1) * x ! 11"
proof -
  have sl: "length s = 12" by (simp add: s_def)
  let ?Jx = "jacfwd (rhs_point default_channel [0]) x"
  let ?Js = "jacfwd (rhs_point default_channel [0]) s"
  have Jx: "length ?Jx = 12" by (rule jacfwd_shape(1))
  have Js: "length ?Js = 12" by (rule jacfwd_shape(1))
  have z: "dot r s = 0" for r
    unfolding s_def using dot_zeros [of r 12] by (simp add: eval_nat_numeral)
  have row: "rhs_point default_channel [20] x ! i - dot (?Jx ! i) x =
      rhs_point default_channel [20] s ! i" if "i < 12" for i
  proof -
    have "vec_sub (rhs_point default_channel [20] x) (matvec ?Jx x) ! i =
        vec_sub (rhs_point default_channel [20] s) (matvec ?Js s) ! i"
      using eq by simp
    then show ?thesis
      using that Jx Js by (simp add: vec_sub_def matvec_def length_rhs_point z)
  qed
  define y0 where "y0 = x ! 0"
  define y1 where "y1 = x ! 1"
  define y2 where "y2 = x ! 2"
  define y3 where "y3 = x ! 3"
  define y4 where "y4 = x ! 4"
  define y5 where "y5 = x ! 5"
  define y6 where "y6 = x ! 6"
  define y7 where "y7 = x ! 7"
  define y8 where "y8 = x ! 8"
  define y9 where "y9 = x ! 9"
  define y10 where "y10 = x ! 10"
  define y11 where "y11 = x ! 11"
  have xl: "x = [y0, y1, y2, y3, y4, y5, y6, y7, y8, y9, y10, y11]"
    unfolding y0_def y1_def y2_def y3_def y4_def y5_def y6_def y7_def y8_def y9_def
      y10_def y11_def
    by (rule list_12 [OF x])
  note Jxe = default_jacobian [OF x]
  have F: "rhs_point default_channel [20] s =
      [0, 0, 0, 0, 0, 0, 0, 0, 0, 40 * exp (- (20 / 10 ^ 12)), 1 / 200, 0]"
    unfolding s_def by (rule rhs_point_default_20_rest)
  have r0: "rhs_point default_channel [20] x ! 0 - dot (?Jx ! 0) x =
      rhs_point default_channel [20] s ! 0" by (rule row) simp
  have r5: "rhs_point default_channel [20] x ! 5 - dot (?Jx ! 5) x =
      rhs_point default_channel [20] s ! 5" by (rule row) simp
  have r11: "rhs_point default_channel [20] x ! 11 - dot (?Jx ! 11) x =
      rhs_point default_channel [20] s ! 11" by (rule row) simp
  have "600 * (exp 1 - 1) * y0 = 3 * (exp (- 1) - 1) * y1"
    using r0 unfolding Jxe F
    by (simp add: xl rhs_point_default_20_rows dot_def algebra_simps)
  then show "600 * (exp 1 - 1) * x ! 0 = 3 * (exp (- 1) - 1) * x ! 1"
    by (simp add: y0_def y1_def)
  have "600 * alfac default_channel * (exp 1 - 1) * y5 =
      3 * btfac default_channel * (exp (- 1) - 1) * y6"
    using r5 unfolding Jxe F
    by (simp add: xl rhs_point_default_20_rows dot_def algebra_simps)
  then show "600 * alfac default_channel * (exp 1 - 1) * x ! 5 =
      3 * btfac default_channel * (exp (- 1) - 1) * x ! 6"
    by (simp add: y5_def y6_def)
  have "7 / 4 * (exp (20 / 10 ^ 12) - 1) * y10 = 3 / 100 * (exp (- (4 / 5)) - 1) * y11"
    using r11 unfolding Jxe F
    by (simp add: xl rhs_point_default_20_rows dot_def algebra_simps)
  then show "7 / 4 * (exp (20 / 10 ^ 12) - 1) * x ! 10 = 3 / 100 * (exp (- (4 / 5)) - 1) * x ! 11"
    by (simp add: y10_def y11_def)
qed

lemma A_all_state_indep:
  assumes V: "V \<noteq> []" and S: "length S = 12" and S': "length S' = 12"
  shows "A_all p V M S = A_all p V M S'"
proof -
  have "jacfwd (rhs_point p V) (col m S) = jacfwd (rhs_point p V) (col m S')" for m
  proof -
    have "jacfwd (rhs_point p V) (col m S) = jacfwd (rhs_point p [V ! 0]) (col m S)"
      by (rule jacfwd_V0 [OF V]) (simp add: length_col S)
    also have "\<dots> = jacfwd (rhs_point p [V ! 0]) (col m S')"
      by (rule jacfwd_state_indep) (simp_all add: length_col S S')
    also have "\<dots> = jacfwd (rhs_point p V) (col m S')"
      by (rule jacfwd_V0 [OF V, symmetric]) (simp add: length_col S')
    finally show ?thesis .
  qed
  then show ?thesis by (simp add: A_all_def T_of_def)
qed

text \<open>
  Claim C6.  The default channel with two compartments at rest, the voltages \<open>0\<close> and
  \<open>20\<close> held fixed, and the step \<open>1/500\<close> of the environment.  The step returns; the
  Jacobians \<open>A_all\<close> derived again at the state it has written are those derived before
  the step, but \<open>b_val\<close> is not: for compartment \<open>1\<close> the Jacobian is the one at the
  voltage of compartment \<open>0\<close>, so \<open>rhs(S) - A S\<close> keeps a part that is linear in \<open>S\<close>.
\<close>

theorem b_val_not_reproduced:
  "\<exists>st'. update_state default_channel [0, 20] (1 / 500) initial_state = Written st' \<and>
     A_all default_channel [0, 20] 2 (cells st') =
       A_all default_channel [0, 20] 2 (cells initial_state) \<and>
     b_val default_channel [0, 20] 2 (cells st') \<noteq>
       b_val default_channel [0, 20] 2 (cells initial_state)"
proof -
  obtain st' where w: "update_state default_channel [0, 20] (1 / 500) initial_state = Written st'"
    using update_state_default_returns_V0 [of "[0, 20]"] by auto
  let ?x = "col 1 (cells st')"
  note sys = batch_step_system [OF w]
  have V: "length [0, 20 :: real] = length (C1 initial_state)"
    by (simp add: initial_state_def)
  have l: "length (C1 initial_state) = 2" by (simp add: initial_state_def)
  have sh': "shaped 2 st'"
    using update_state_Written_shaped [OF w V] unfolding l .
  have A: "A_all default_channel [0, 20] 2 (cells st') =
      A_all default_channel [0, 20] 2 (cells initial_state)"
    by (rule A_all_state_indep) (simp_all add: length_cells)
  have "b_val default_channel [0, 20] 2 (cells st') \<noteq>
      b_val default_channel [0, 20] 2 (cells initial_state)"
  proof
    assume "b_val default_channel [0, 20] 2 (cells st') =
      b_val default_channel [0, 20] 2 (cells initial_state)"
    then have e1: "b_val default_channel [0, 20] 2 (cells st') ! 1 =
      b_val default_channel [0, 20] 2 (cells initial_state) ! 1" by simp
    have "b_val default_channel [0, 20] 2 (cells st') ! 1 =
        vec_sub (rhs_point default_channel [[0, 20] ! 1] ?x)
          (matvec (jacfwd (rhs_point default_channel [[0, 20] ! 0]) ?x) ?x)"
      by (rule b_val_nth [OF _ length_cells shaped_rows [OF sh']]) simp_all
    then have b1: "b_val default_channel [0, 20] 2 (cells st') ! 1 =
        vec_sub (rhs_point default_channel [20] ?x)
          (matvec (jacfwd (rhs_point default_channel [0]) ?x) ?x)"
      by simp
    have "b_val default_channel [0, 20] 2 (cells initial_state) ! 1 =
        vec_sub (rhs_point default_channel [[0, 20] ! 1] (col 1 (cells initial_state)))
          (matvec (jacfwd (rhs_point default_channel [[0, 20] ! 0])
             (col 1 (cells initial_state))) (col 1 (cells initial_state)))"
      by (rule b_val_nth [OF _ length_cells shaped_rows [OF shaped_initial_state]]) simp_all
    then have b2: "b_val default_channel [0, 20] 2 (cells initial_state) ! 1 =
        vec_sub (rhs_point default_channel [20] [0, 0, 0, 0, 0, 0, 0, 0, 0, 0, 0, 0])
          (matvec (jacfwd (rhs_point default_channel [0]) [0, 0, 0, 0, 0, 0, 0, 0, 0, 0, 0, 0])
             [0, 0, 0, 0, 0, 0, 0, 0, 0, 0, 0, 0])"
      unfolding col_initial_state by simp
    have eq: "vec_sub (rhs_point default_channel [20] ?x)
          (matvec (jacfwd (rhs_point default_channel [0]) ?x) ?x) =
        vec_sub (rhs_point default_channel [20] [0, 0, 0, 0, 0, 0, 0, 0, 0, 0, 0, 0])
          (matvec (jacfwd (rhs_point default_channel [0]) [0, 0, 0, 0, 0, 0, 0, 0, 0, 0, 0, 0])
             [0, 0, 0, 0, 0, 0, 0, 0, 0, 0, 0, 0])"
      using e1 unfolding b1 b2 .
    note d = b_rows_agree [OF sys(1) eq]
    show False by (rule coupled_step_rows [OF sys d])
  qed
  with w A show ?thesis by blast
qed

text \<open>
  Claim C9.  A call for a single compartment does not return: \<open>len\<close> of the squeezed,
  zero-dimensional value raises.  In the batch of two compartments at rest with the
  voltages \<open>0\<close> and \<open>20\<close> the step returns, the Jacobian \<open>A_all\<close> of compartment \<open>1\<close> is
  the one at the voltage \<open>0\<close> of compartment \<open>0\<close>, and the state written for
  compartment \<open>1\<close> is not the backward-Euler step (with the local step \<open>1/1000\<close>) at
  its own voltage \<open>20\<close>, which a solve of that compartment on its own has to return.
\<close>

theorem update_state_batch_coupled:
  "update_state default_channel [20] (1 / 500) single_compartment = Raised UnsizedLen \<and>
   (\<exists>st'. update_state default_channel [0, 20] (1 / 500) initial_state = Written st' \<and>
      A_all default_channel [0, 20] 2 (cells initial_state) ! 1 =
        jacfwd (rhs_point default_channel [0]) (col 1 (cells initial_state)) \<and>
      \<not> backward_euler_eq default_channel 20 (1 / 1000)
          (col 1 (cells initial_state)) (col 1 (cells st')))"
proof -
  have 1: "update_state default_channel [20] (1 / 500) single_compartment = Raised UnsizedLen"
    by (simp add: update_state_def Let_def single_compartment_def cells_def)
  obtain st' where w: "update_state default_channel [0, 20] (1 / 500) initial_state = Written st'"
    using update_state_default_returns_V0 [of "[0, 20]"] by auto
  let ?s = "col 1 (cells initial_state)"
  let ?x = "col 1 (cells st')"
  note sys = batch_step_system [OF w]
  have s: "length ?s = 12" by (simp add: length_col length_cells)
  have 2: "A_all default_channel [0, 20] 2 (cells initial_state) ! 1 =
      jacfwd (rhs_point default_channel [0]) ?s"
    using jacfwd_V0 [of "[0, 20]" ?s default_channel] s by (simp add: A_all_nth)
  have 3: "\<not> backward_euler_eq default_channel 20 (1 / 1000) ?s ?x"
  proof
    assume "backward_euler_eq default_channel 20 (1 / 1000) ?s ?x"
    then have be: "backward_euler_eq default_channel 20 (1 / 1000)
        [0, 0, 0, 0, 0, 0, 0, 0, 0, 0, 0, 0] ?x"
      unfolding col_initial_state .
    note d = backward_euler_rows_agree [OF sys be]
    show False by (rule coupled_step_rows [OF sys d])
  qed
  from 1 w 2 3 show ?thesis by blast
qed

end
